theory Spec2Isabelle
  imports Main "HOL-Library.FSet" "HOL-Library.Sublist"
begin

section \<open>The commit walker of dulwich (walk.py)\<close>

text \<open>
  A shallow embedding of \<^verbatim>\<open>dulwich/walk.py\<close>: the commit-time queue, the path filter,
  the walker's output buffer, the topological reordering and the iteration of a walk.

  Conventions of the embedding.
  \<^item> A commit id (a SHA) is a natural number; a commit time is a Python integer.
  \<^item> The object store is an association list from ids to commits; \<^verbatim>\<open>store[k]\<close> is
    \<open>map_of\<close>, and a missing key is the \<^verbatim>\<open>KeyError\<close> of the source.
  \<^item> Python sets that are only tested for membership (\<^verbatim>\<open>excluded\<close>, \<^verbatim>\<open>_pq_set\<close>,
    \<^verbatim>\<open>_seen\<close>, \<^verbatim>\<open>_done\<close>) are finite sets. The set \<^verbatim>\<open>paths\<close> is iterated by
    \<^verbatim>\<open>_path_matches\<close>, so it is a duplicate-free list read in list order.
  \<^item> The source is Python 3 code. A path is a \<^verbatim>\<open>bytes\<close> object (a list of bytes) or
    a \<^verbatim>\<open>str\<close> object (a list of code points); a \<^verbatim>\<open>bytes\<close> and a \<^verbatim>\<open>str\<close> object
    are never equal. \<^verbatim>\<open>decode('utf-8')\<close> is the strict UTF-8 decoder, an element of a
    \<^verbatim>\<open>str\<close> is a \<^verbatim>\<open>str\<close> and \<^verbatim>\<open>b'/'[0]\<close> is the integer 47.
  \<^item> Every exception of the source is a value of \<open>error\<close>; a function that can raise
    returns \<open>error + result\<close>.
\<close>

subsection \<open>Data\<close>

type_synonym commit_id = nat

datatype error =
    MissingCommitError commit_id
  | KeyError
  | IndexError
  | TypeError
  | UnicodeDecodeError
  | ValueError string

text \<open>A path is a \<^verbatim>\<open>bytes\<close> object, as the tree entries of a change hold it, or a
  \<^verbatim>\<open>str\<close> object, given by its code points.\<close>

datatype pathname = Bytes string | Str "nat list"

record commit =
  cid :: commit_id
  commit_time :: int
  parents :: "commit_id list"
  tree :: nat

datatype change_type =
  CHANGE_ADD | CHANGE_MODIFY | CHANGE_DELETE | CHANGE_RENAME | CHANGE_COPY | CHANGE_UNCHANGED

record tree_entry =
  path :: "pathname option"
  mode :: "nat option"
  sha :: "nat option"

record tree_change =
  ctype :: change_type
  old :: tree_entry
  new :: tree_entry

text \<open>
  Modelled from the spec: \<^verbatim>\<open>RENAME_CHANGE_TYPES\<close> is imported from
  \<^verbatim>\<open>dulwich.diff_tree\<close>, which is not part of the sources at hand; the specification
  gives it as the rename and the copy change.
\<close>

definition RENAME_CHANGE_TYPES :: "change_type list" where
  "RENAME_CHANGE_TYPES = [CHANGE_RENAME, CHANGE_COPY]"

definition ORDER_DATE :: string where
  "ORDER_DATE = ''date''"

definition ORDER_TOPO :: string where
  "ORDER_TOPO = ''topo''"

definition ALL_ORDERS :: "string list" where
  "ALL_ORDERS = [ORDER_DATE, ORDER_TOPO]"

definition MAX_EXTRA_COMMITS :: int where
  "MAX_EXTRA_COMMITS = 5"

datatype rename_detector = RenameDetector "(commit_id \<times> commit) list" | GivenDetector nat

text \<open>
  The result of \<^verbatim>\<open>WalkEntry.changes()\<close>: a list of changes for a commit with at most
  one parent, a list of lists for a merge. An element may be \<^verbatim>\<open>None\<close>.
\<close>

datatype changes =
    Changes "tree_change option list"
  | MergeChanges "tree_change option list list"

text \<open>The state of a \<^verbatim>\<open>_CommitTimeQueue\<close>. The heap \<^verbatim>\<open>_pq\<close> of pairs
  \<^verbatim>\<open>(-commit_time, commit)\<close> is kept as a list sorted by that pair, the smallest pair
  first, so that \<^verbatim>\<open>heappop\<close> takes the head and \<^verbatim>\<open>_pq[0]\<close> is the head. The fields
  \<^verbatim>\<open>_store\<close>, \<^verbatim>\<open>_get_parents\<close>, \<^verbatim>\<open>_min_time\<close> and \<^verbatim>\<open>_excluded\<close> are references
  into the walker and are read there.\<close>

record queue =
  pq :: "(int \<times> commit) list"
  pq_set :: "commit_id fset"
  seen :: "commit_id fset"
  done_set :: "commit_id fset"
  last_commit :: "commit option"
  extra_commits_left :: int
  is_finished :: bool

text \<open>The \<^verbatim>\<open>Walker\<close> object is split in two records. \<open>walker\<close> holds the fields
  that are assigned by the constructor only (the options); \<open>walk_state\<close> holds the
  fields that change during a walk: \<^verbatim>\<open>excluded\<close> (one set object, shared with the
  queue), \<^verbatim>\<open>paths\<close>, \<^verbatim>\<open>_num_entries\<close>, \<^verbatim>\<open>_queue\<close> and \<^verbatim>\<open>_out_queue\<close>.
  The two tree-diff functions of \<^verbatim>\<open>dulwich.diff_tree\<close> are parameters of the walker:
  they take the rename detector, the tree(s) of the parent(s) and the tree of the commit.
  A \<^verbatim>\<open>WalkEntry\<close> is represented by its commit.\<close>

record walker =
  store :: "(commit_id \<times> commit) list"
  include_ids :: "commit_id list"
  order :: string
  reverse :: bool
  max_entries :: "int option"
  rename_detector :: "rename_detector option"
  get_parents :: "commit \<Rightarrow> commit_id list"
  follow :: bool
  since :: "int option"
  until :: "int option"
  tree_changes :: "rename_detector option \<Rightarrow> nat option \<Rightarrow> nat \<Rightarrow> tree_change option list"
  tree_changes_for_merge ::
    "rename_detector option \<Rightarrow> nat list \<Rightarrow> nat \<Rightarrow> tree_change option list list"

record walk_state =
  excluded :: "commit_id fset"
  paths :: "pathname option list option"
  num_entries :: int
  queue :: queue
  out_queue :: "commit list"

subsection \<open>WalkEntry.changes\<close>

fun lookup_trees :: "(commit_id \<times> commit) list \<Rightarrow> commit_id list \<Rightarrow> error + nat list" where
  "lookup_trees st [] = Inr []"
| "lookup_trees st (p # ps) =
     (case map_of st p of
        None \<Rightarrow> Inl KeyError
      | Some c \<Rightarrow> (case lookup_trees st ps of
                    Inl e \<Rightarrow> Inl e
                  | Inr ts \<Rightarrow> Inr (tree c # ts)))"

definition entry_changes :: "walker \<Rightarrow> commit \<Rightarrow> error + changes" where
  "entry_changes w c =
     (let ps = get_parents w c in
      if ps = [] then
        Inr (Changes (tree_changes w (rename_detector w) None (tree c)))
      else if length ps = 1 then
        (case map_of (store w) (ps ! 0) of
           None \<Rightarrow> Inl KeyError
         | Some p \<Rightarrow> Inr (Changes (tree_changes w (rename_detector w) (Some (tree p)) (tree c))))
      else
        (case lookup_trees (store w) ps of
           Inl e \<Rightarrow> Inl e
         | Inr ts \<Rightarrow> Inr (MergeChanges (tree_changes_for_merge w (rename_detector w) ts (tree c)))))"

subsection \<open>The path filter\<close>

text \<open>\<^verbatim>\<open>bytes.decode('utf-8')\<close>: the strict decoder of UTF-8 (shortest forms only, no
  surrogates, nothing above \<open>0x10FFFF\<close>), from a list of byte values to a list of code
  points; \<open>None\<close> is \<^verbatim>\<open>UnicodeDecodeError\<close>.\<close>

definition continuation :: "nat \<Rightarrow> bool" where
  "continuation b = (128 \<le> b \<and> b \<le> 191)"

fun utf8_decode :: "nat list \<Rightarrow> nat list option" where
  "utf8_decode [] = Some []"
| "utf8_decode (b # bs) =
     (if b < 128 then map_option ((#) b) (utf8_decode bs)
      else if 194 \<le> b \<and> b \<le> 223 then
        (case bs of
           c1 # r \<Rightarrow>
             if continuation c1
             then map_option ((#) ((b - 192) * 64 + (c1 - 128))) (utf8_decode r)
             else None
         | _ \<Rightarrow> None)
      else if 224 \<le> b \<and> b \<le> 239 then
        (case bs of
           c1 # c2 # r \<Rightarrow>
             if (if b = 224 then 160 else 128) \<le> c1 \<and> c1 \<le> (if b = 237 then 159 else 191)
                \<and> continuation c2
             then map_option ((#) ((b - 224) * 4096 + (c1 - 128) * 64 + (c2 - 128)))
                    (utf8_decode r)
             else None
         | _ \<Rightarrow> None)
      else if 240 \<le> b \<and> b \<le> 244 then
        (case bs of
           c1 # c2 # c3 # r \<Rightarrow>
             if (if b = 240 then 144 else 128) \<le> c1 \<and> c1 \<le> (if b = 244 then 143 else 191)
                \<and> continuation c2 \<and> continuation c3
             then map_option
                    ((#) ((b - 240) * 262144 + (c1 - 128) * 4096 + (c2 - 128) * 64 + (c3 - 128)))
                    (utf8_decode r)
             else None
         | _ \<Rightarrow> None)
      else None)"

text \<open>The first two lines of \<^verbatim>\<open>_path_matches\<close>: a \<^verbatim>\<open>bytes\<close> object has the attribute
  \<^verbatim>\<open>decode\<close> and is decoded; a \<^verbatim>\<open>str\<close> object has not and is left as it is.\<close>

definition decode :: "pathname \<Rightarrow> error + nat list" where
  "decode p =
     (case p of
        Bytes b \<Rightarrow> (case utf8_decode (map of_char b) of
                     None \<Rightarrow> Inl UnicodeDecodeError
                   | Some u \<Rightarrow> Inr u)
      | Str u \<Rightarrow> Inr u)"

text \<open>\<^verbatim>\<open>changed_path[len(followed_path)] == b'/'[0]\<close> compares a \<^verbatim>\<open>str\<close> of one
  character with the integer 47; in Python 3 a \<^verbatim>\<open>str\<close> and an \<^verbatim>\<open>int\<close> are never
  equal.\<close>

definition str_eq_int :: "nat \<Rightarrow> int \<Rightarrow> bool" where
  "str_eq_int c n = False"

text \<open>The loop of \<^verbatim>\<open>_path_matches\<close> over the followed paths; the changed path is a
  \<^verbatim>\<open>str\<close> here. A followed path that is \<^verbatim>\<open>None\<close> or a \<^verbatim>\<open>bytes\<close> object is not
  equal to it, and \<^verbatim>\<open>startswith\<close> then raises \<^verbatim>\<open>TypeError\<close>; reading
  \<^verbatim>\<open>changed_path[len(followed_path)]\<close> past the end would raise \<^verbatim>\<open>IndexError\<close>.\<close>

fun path_matches_loop :: "nat list \<Rightarrow> pathname option list \<Rightarrow> error + bool" where
  "path_matches_loop changed_path [] = Inr False"
| "path_matches_loop changed_path (None # rest) = Inl TypeError"
| "path_matches_loop changed_path (Some (Bytes followed_path) # rest) = Inl TypeError"
| "path_matches_loop changed_path (Some (Str followed_path) # rest) =
     (if changed_path = followed_path then Inr True
      else if prefix followed_path changed_path then
        (if length followed_path < length changed_path then
           (if str_eq_int (changed_path ! length followed_path) 47 then Inr True
            else path_matches_loop changed_path rest)
         else Inl IndexError)
      else path_matches_loop changed_path rest)"

definition path_matches :: "walk_state \<Rightarrow> pathname option \<Rightarrow> error + bool" where
  "path_matches s changed_path =
     (case changed_path of
        None \<Rightarrow> Inr False
      | Some cp \<Rightarrow>
          (case decode cp of
             Inl e \<Rightarrow> Inl e
           | Inr p \<Rightarrow> (case paths s of
                         None \<Rightarrow> Inl TypeError
                       | Some ps \<Rightarrow> path_matches_loop p ps)))"

text \<open>\<^verbatim>\<open>self.paths.add(old_path); self.paths.remove(new_path)\<close>: the removal raises
  \<^verbatim>\<open>KeyError\<close> when the new path is not an element (it may have matched as a file below
  a followed directory).\<close>

definition follow_rename ::
  "pathname option list \<Rightarrow> pathname option \<Rightarrow> pathname option
     \<Rightarrow> error + pathname option list" where
  "follow_rename ps old_path new_path =
     (let ps1 = (if old_path \<in> set ps then ps else ps @ [old_path]) in
      if new_path \<in> set ps1 then Inr (removeAll new_path ps1) else Inl KeyError)"

definition change_matches ::
  "walker \<Rightarrow> walk_state \<Rightarrow> tree_change option \<Rightarrow> error + (bool \<times> walk_state)" where
  "change_matches w s change =
     (case change of
        None \<Rightarrow> Inr (False, s)
      | Some ch \<Rightarrow>
          (let old_path = path (old ch); new_path = path (new ch) in
           case path_matches s new_path of
             Inl e \<Rightarrow> Inl e
           | Inr True \<Rightarrow>
               (if follow w \<and> ctype ch \<in> set RENAME_CHANGE_TYPES then
                  (case paths s of
                     None \<Rightarrow> Inl TypeError
                   | Some ps \<Rightarrow> (case follow_rename ps old_path new_path of
                                  Inl e \<Rightarrow> Inl e
                                | Inr ps' \<Rightarrow> Inr (True, s\<lparr>paths := Some ps'\<rparr>)))
                else Inr (True, s))
           | Inr False \<Rightarrow>
               (case path_matches s old_path of
                  Inl e \<Rightarrow> Inl e
                | Inr True \<Rightarrow> Inr (True, s)
                | Inr False \<Rightarrow> Inr (False, s))))"

text \<open>The inner loop \<^verbatim>\<open>for change in ...: if self._change_matches(change): return True\<close>
  and, for a merge, the outer loop over \<^verbatim>\<open>entry.changes()\<close>.\<close>

fun any_change_matches ::
  "walker \<Rightarrow> walk_state \<Rightarrow> tree_change option list \<Rightarrow> error + (bool \<times> walk_state)" where
  "any_change_matches w s [] = Inr (False, s)"
| "any_change_matches w s (change # rest) =
     (case change_matches w s change of
        Inl e \<Rightarrow> Inl e
      | Inr (True, s') \<Rightarrow> Inr (True, s')
      | Inr (False, s') \<Rightarrow> any_change_matches w s' rest)"

fun any_path_changes_match ::
  "walker \<Rightarrow> walk_state \<Rightarrow> tree_change option list list \<Rightarrow> error + (bool \<times> walk_state)" where
  "any_path_changes_match w s [] = Inr (False, s)"
| "any_path_changes_match w s (path_changes # rest) =
     (case any_change_matches w s path_changes of
        Inl e \<Rightarrow> Inl e
      | Inr (True, s') \<Rightarrow> Inr (True, s')
      | Inr (False, s') \<Rightarrow> any_path_changes_match w s' rest)"

text \<open>\<^verbatim>\<open>_should_return\<close>. Its final \<^verbatim>\<open>return None\<close> is read by the caller as false.
  \<^verbatim>\<open>entry.changes()\<close> is a list of lists exactly when the commit has more than one
  parent, which is the test of the source.\<close>

definition should_return :: "walker \<Rightarrow> walk_state \<Rightarrow> commit \<Rightarrow> error + (bool \<times> walk_state)" where
  "should_return w s c =
     (if since w \<noteq> None \<and> commit_time c < the (since w) then Inr (False, s)
      else if until w \<noteq> None \<and> commit_time c > the (until w) then Inr (False, s)
      else if cid c |\<in>| excluded s then Inr (False, s)
      else if paths s = None then Inr (True, s)
      else
        (case entry_changes w c of
           Inl e \<Rightarrow> Inl e
         | Inr (MergeChanges css) \<Rightarrow> any_path_changes_match w s css
         | Inr (Changes cs) \<Rightarrow> any_change_matches w s cs))"

subsection \<open>The commit-time queue\<close>

text \<open>Modelled from the spec: the heap compares pairs \<^verbatim>\<open>(-commit_time, commit)\<close>, and
  for equal times it compares the commit objects, whose class is in
  \<^verbatim>\<open>dulwich.objects\<close> and not part of the sources at hand. The specification asks for a
  deterministic tie-break, for example by id; \<open>heap_le\<close> compares the ids.\<close>

definition heap_le :: "int \<times> commit \<Rightarrow> int \<times> commit \<Rightarrow> bool" where
  "heap_le a b = (fst a < fst b \<or> (fst a = fst b \<and> cid (snd a) \<le> cid (snd b)))"

fun heappush :: "(int \<times> commit) list \<Rightarrow> int \<times> commit \<Rightarrow> (int \<times> commit) list" where
  "heappush [] x = [x]"
| "heappush (y # ys) x = (if heap_le x y then x # y # ys else y # heappush ys x)"

text \<open>\<^verbatim>\<open>_push\<close>: the commit is fetched from the store first; then it is inserted
  unless its id is in \<^verbatim>\<open>_pq_set\<close> or in \<^verbatim>\<open>_done\<close>.\<close>

definition push :: "walker \<Rightarrow> walk_state \<Rightarrow> commit_id \<Rightarrow> error + walk_state" where
  "push w s commit_id =
     (case map_of (store w) commit_id of
        None \<Rightarrow> Inl (MissingCommitError commit_id)
      | Some c \<Rightarrow>
          (let q = queue s in
           if commit_id |\<notin>| pq_set q \<and> commit_id |\<notin>| done_set q then
             Inr (s\<lparr>queue := q\<lparr>pq := heappush (pq q) (- commit_time c, c),
                                pq_set := finsert commit_id (pq_set q),
                                seen := finsert commit_id (seen q)\<rparr>\<rparr>)
           else Inr s))"

fun push_all :: "walker \<Rightarrow> walk_state \<Rightarrow> commit_id list \<Rightarrow> error + walk_state" where
  "push_all w s [] = Inr s"
| "push_all w s (commit_id # rest) =
     (case push w s commit_id of
        Inl e \<Rightarrow> Inl e
      | Inr s' \<Rightarrow> push_all w s' rest)"

text \<open>\<^verbatim>\<open>_exclude_parents\<close>. The stack \<^verbatim>\<open>todo\<close> is a list whose head is the top
  (\<^verbatim>\<open>todo.pop()\<close> takes the element appended last). \<open>exclude_parents_for\<close> is the
  \<^verbatim>\<open>for\<close> loop over the parents of one commit; the lookup \<^verbatim>\<open>self._store[parent]\<close>
  raises a plain \<^verbatim>\<open>KeyError\<close>.\<close>

fun exclude_parents_for ::
  "walker \<Rightarrow> walk_state \<Rightarrow> commit_id list \<Rightarrow> commit list \<Rightarrow> error + (walk_state \<times> commit list)" where
  "exclude_parents_for w s [] todo = Inr (s, todo)"
| "exclude_parents_for w s (parent # rest) todo =
     (if parent |\<notin>| excluded s \<and> parent |\<in>| seen (queue s) then
        (case map_of (store w) parent of
           None \<Rightarrow> Inl KeyError
         | Some pc \<Rightarrow>
             exclude_parents_for w (s\<lparr>excluded := finsert parent (excluded s)\<rparr>) rest (pc # todo))
      else exclude_parents_for w (s\<lparr>excluded := finsert parent (excluded s)\<rparr>) rest todo)"

definition exclude_measure :: "walk_state \<Rightarrow> commit list \<Rightarrow> nat" where
  "exclude_measure s todo = length todo + 2 * fcard (seen (queue s) |-| excluded s)"

lemma exclude_parents_for_measure:
  "exclude_parents_for w s ps todo = Inr (s', todo') \<Longrightarrow>
     exclude_measure s' todo' \<le> exclude_measure s todo"
proof (induction ps arbitrary: s todo)
  case Nil
  then show ?case by simp
next
  case (Cons parent rest)
  let ?s1 = "s\<lparr>excluded := finsert parent (excluded s)\<rparr>"
  show ?case
  proof (cases "parent |\<notin>| excluded s \<and> parent |\<in>| seen (queue s)")
    case True
    then obtain pc where pc: "map_of (store w) parent = Some pc"
      and rec: "exclude_parents_for w ?s1 rest (pc # todo) = Inr (s', todo')"
      using Cons.prems by (auto split: option.splits)
    have "parent |\<in>| seen (queue s) |-| excluded s" using True by simp
    then have "fcard (seen (queue s) |-| excluded s |-| {|parent|}) < fcard (seen (queue s) |-| excluded s)"
      by (rule fcard_fminus1_less)
    moreover have "seen (queue s) |-| finsert parent (excluded s) = seen (queue s) |-| excluded s |-| {|parent|}"
      by auto
    ultimately have "exclude_measure ?s1 (pc # todo) \<le> exclude_measure s todo"
      by (simp add: exclude_measure_def)
    with Cons.IH [OF rec] show ?thesis by simp
  next
    case False
    then have rec: "exclude_parents_for w ?s1 rest todo = Inr (s', todo')"
      using Cons.prems by auto
    have "seen (queue s) |-| finsert parent (excluded s) |\<subseteq>| seen (queue s) |-| excluded s"
      by auto
    then have "fcard (seen (queue s) |-| finsert parent (excluded s)) \<le> fcard (seen (queue s) |-| excluded s)"
      by (rule fcard_mono)
    then have "exclude_measure ?s1 todo \<le> exclude_measure s todo"
      by (simp add: exclude_measure_def)
    with Cons.IH [OF rec] show ?thesis by simp
  qed
qed

function exclude_parents_loop :: "walker \<Rightarrow> walk_state \<Rightarrow> commit list \<Rightarrow> error + walk_state" where
  "exclude_parents_loop w s [] = Inr s"
| "exclude_parents_loop w s (c # todo) =
     (case exclude_parents_for w s (get_parents w c) todo of
        Inl e \<Rightarrow> Inl e
      | Inr (s', todo') \<Rightarrow> exclude_parents_loop w s' todo')"
  by pat_completeness auto
termination
proof (relation "measure (\<lambda>(w, s, todo). exclude_measure s todo)")
  show "wf (measure (\<lambda>(w, s, todo). exclude_measure s todo))" by simp
next
  fix w s c todo x2 s' todo'
  assume "exclude_parents_for w s (get_parents w c) todo = Inr x2" and "(s', todo') = x2"
  then have "exclude_measure s' todo' \<le> exclude_measure s todo"
    using exclude_parents_for_measure by metis
  then show "((w, s', todo'), (w, s, c # todo)) \<in> measure (\<lambda>(w, s, todo). exclude_measure s todo)"
    by (simp add: exclude_measure_def)
qed

definition exclude_parents :: "walker \<Rightarrow> walk_state \<Rightarrow> commit \<Rightarrow> error + walk_state" where
  "exclude_parents w s c = exclude_parents_loop w s [c]"

text \<open>One pass through the body of the \<^verbatim>\<open>while self._pq\<close> loop of
  \<^verbatim>\<open>_CommitTimeQueue.next\<close> ends in one of three ways.\<close>

datatype step = Continue | Break | Yield commit

text \<open>The flag \<^verbatim>\<open>reset_extra_commits\<close>, computed after the parents of an excluded
  commit were excluded. \<^verbatim>\<open>_min_time\<close> is the walker's \<^verbatim>\<open>since\<close>.\<close>

definition reset_extra_commits :: "walker \<Rightarrow> walk_state \<Rightarrow> commit \<Rightarrow> bool \<Rightarrow> bool" where
  "reset_extra_commits w s c is_excluded =
     (let q = queue s;
          r = (if is_excluded \<and> pq q \<noteq> [] \<and> list_all (\<lambda>(_, c'). cid c' |\<in>| excluded s) (pq q)
               then (case pq q of
                       (_, n) # _ \<Rightarrow>
                         (case last_commit q of
                            None \<Rightarrow> False
                          | Some l \<Rightarrow> commit_time n \<ge> commit_time l)
                     | [] \<Rightarrow> True)
               else True)
      in if since w \<noteq> None \<and> commit_time c < the (since w) then False else r)"

definition queue_step ::
  "walker \<Rightarrow> walk_state \<Rightarrow> int \<times> commit \<Rightarrow> (int \<times> commit) list \<Rightarrow> error + (step \<times> walk_state)" where
  "queue_step w s popped rest =
     (let c = snd popped; sha = cid c in
      if sha |\<notin>| pq_set (queue s) then Inl KeyError
      else
        let s1 = s\<lparr>queue := (queue s)\<lparr>pq := rest, pq_set := pq_set (queue s) |-| {|sha|}\<rparr>\<rparr> in
        if sha |\<in>| done_set (queue s1) then Inr (Continue, s1)
        else
          let s2 = s1\<lparr>queue := (queue s1)\<lparr>done_set := finsert sha (done_set (queue s1))\<rparr>\<rparr> in
          case push_all w s2 (get_parents w c) of
            Inl e \<Rightarrow> Inl e
          | Inr s3 \<Rightarrow>
              let is_excluded = sha |\<in>| excluded s3 in
              case (if is_excluded then exclude_parents w s3 c else Inr s3) of
                Inl e \<Rightarrow> Inl e
              | Inr s4 \<Rightarrow>
                  let s5 = (if reset_extra_commits w s4 c is_excluded
                            then s4\<lparr>queue := (queue s4)\<lparr>extra_commits_left := MAX_EXTRA_COMMITS\<rparr>\<rparr>
                            else s4\<lparr>queue := (queue s4)\<lparr>extra_commits_left :=
                                                              extra_commits_left (queue s4) - 1\<rparr>\<rparr>) in
                  if \<not> reset_extra_commits w s4 c is_excluded \<and> extra_commits_left (queue s5) = 0
                  then Inr (Break, s5)
                  else if \<not> is_excluded
                  then Inr (Yield c, s5\<lparr>queue := (queue s5)\<lparr>last_commit := Some c\<rparr>\<rparr>)
                  else Inr (Continue, s5))"

definition finish :: "walk_state \<Rightarrow> walk_state" where
  "finish s = s\<lparr>queue := (queue s)\<lparr>is_finished := True\<rparr>\<rparr>"

definition queue_measure :: "walker \<Rightarrow> walk_state \<Rightarrow> nat" where
  "queue_measure w s =
     length (pq (queue s))
       + 2 * fcard (fset_of_list (map fst (store w)) |-| done_set (queue s) |-| pq_set (queue s))"

lemma length_heappush: "length (heappush xs x) = Suc (length xs)"
  by (induction xs) auto

lemma push_measure:
  assumes "push w s k = Inr s'"
  shows "queue_measure w s' \<le> queue_measure w s"
proof (cases "map_of (store w) k")
  case None
  with assms show ?thesis by (simp add: push_def)
next
  case (Some c)
  show ?thesis
  proof (cases "k |\<notin>| pq_set (queue s) \<and> k |\<notin>| done_set (queue s)")
    case False
    with assms Some show ?thesis by (auto simp: push_def Let_def)
  next
    case True
    let ?K = "fset_of_list (map fst (store w))"
    let ?X = "?K |-| done_set (queue s) |-| pq_set (queue s)"
    have s': "s' = s\<lparr>queue := (queue s)\<lparr>pq := heappush (pq (queue s)) (- commit_time c, c),
                                pq_set := finsert k (pq_set (queue s)),
                                seen := finsert k (seen (queue s))\<rparr>\<rparr>"
      using assms Some True by (simp add: push_def Let_def)
    have "k \<in> fst ` set (store w)" using Some by (metis domI dom_map_of_conv_image_fst)
    then have "k \<in> set (map fst (store w))" by simp
    then have "k |\<in>| ?K" by (simp only: fset_of_list_elem)
    then have kX: "k |\<in>| ?X" using True by simp
    have "?K |-| done_set (queue s) |-| finsert k (pq_set (queue s)) = ?X |-| {|k|}" by auto
    moreover have "fcard (?X |-| {|k|}) < fcard ?X" using kX by (rule fcard_fminus1_less)
    ultimately show ?thesis
      by (simp add: s' queue_measure_def length_heappush)
  qed
qed

lemma push_all_measure:
  "push_all w s ks = Inr s' \<Longrightarrow> queue_measure w s' \<le> queue_measure w s"
proof (induction ks arbitrary: s)
  case Nil
  then show ?case by simp
next
  case (Cons k ks)
  then obtain s1 where s1: "push w s k = Inr s1" and rest: "push_all w s1 ks = Inr s'"
    by (auto split: sum.splits)
  from push_measure [OF s1] Cons.IH [OF rest] show ?case by simp
qed

lemma exclude_parents_for_queue:
  "exclude_parents_for w s ps todo = Inr (s', todo') \<Longrightarrow> queue s' = queue s"
  by (induction ps arbitrary: s todo) (auto split: if_splits option.splits)

lemma exclude_parents_loop_queue:
  "exclude_parents_loop w s todo = Inr s' \<Longrightarrow> queue s' = queue s"
proof (induction w s todo rule: exclude_parents_loop.induct)
  case (1 w s)
  then show ?case by simp
next
  case (2 w s c todo)
  from "2.prems" obtain s1 todo1
    where f: "exclude_parents_for w s (get_parents w c) todo = Inr (s1, todo1)"
      and l: "exclude_parents_loop w s1 todo1 = Inr s'"
    by (auto split: sum.splits)
  from "2.IH" [OF f refl l] exclude_parents_for_queue [OF f] show ?case by simp
qed

lemma exclude_parents_queue: "exclude_parents w s c = Inr s' \<Longrightarrow> queue s' = queue s"
  unfolding exclude_parents_def by (rule exclude_parents_loop_queue)

lemma queue_step_measure:
  assumes "queue_step w s popped rest = Inr (st, s')" and "pq (queue s) = popped # rest"
  shows "queue_measure w s' < queue_measure w s"
proof -
  let ?c = "snd popped"
  let ?sha = "cid ?c"
  let ?K = "fset_of_list (map fst (store w))"
  let ?s1 = "s\<lparr>queue := (queue s)\<lparr>pq := rest, pq_set := pq_set (queue s) |-| {|?sha|}\<rparr>\<rparr>"
  have inset: "?sha |\<in>| pq_set (queue s)"
    using assms(1) by (auto simp: queue_step_def Let_def split: if_splits)
  show ?thesis
  proof (cases "?sha |\<in>| done_set (queue s)")
    case True
    then have s': "s' = ?s1"
      using assms(1) inset by (simp add: queue_step_def Let_def)
    have "?K |-| done_set (queue s) |-| (pq_set (queue s) |-| {|?sha|})
            = ?K |-| done_set (queue s) |-| pq_set (queue s)"
      using True by auto
    then show ?thesis using assms(2) by (simp add: s' queue_measure_def)
  next
    case False
    let ?s2 = "?s1\<lparr>queue := (queue ?s1)\<lparr>done_set := finsert ?sha (done_set (queue ?s1))\<rparr>\<rparr>"
    from assms(1) inset False obtain s3 where s3: "push_all w ?s2 (get_parents w ?c) = Inr s3"
      by (auto simp: queue_step_def Let_def split: sum.splits)
    let ?ex = "?sha |\<in>| excluded s3"
    from assms(1) inset False s3 obtain s4
      where s4: "(if ?ex then exclude_parents w s3 ?c else Inr s3) = Inr s4"
      by (simp add: queue_step_def Let_def split: sum.splits)
    have q4: "queue s4 = queue s3"
      using s4 exclude_parents_queue by (auto split: if_splits)
    have "?K |-| finsert ?sha (done_set (queue s)) |-| (pq_set (queue s) |-| {|?sha|})
            = ?K |-| done_set (queue s) |-| pq_set (queue s)"
      using inset by auto
    then have m2: "queue_measure w ?s2 < queue_measure w s"
      using assms(2) by (simp add: queue_measure_def)
    have m3: "queue_measure w s3 \<le> queue_measure w ?s2"
      by (rule push_all_measure [OF s3])
    have "pq (queue s') = pq (queue s4) \<and> done_set (queue s') = done_set (queue s4)
            \<and> pq_set (queue s') = pq_set (queue s4)"
      using assms(1) inset False s3 s4
      by (auto simp: queue_step_def Let_def split: if_splits)
    then have "queue_measure w s' = queue_measure w s3"
      by (simp add: queue_measure_def q4)
    with m2 m3 show ?thesis by simp
  qed
qed

text \<open>The loop of \<^verbatim>\<open>next\<close>, and \<^verbatim>\<open>next\<close> itself. Leaving the loop, by the drained
  heap or by \<^verbatim>\<open>break\<close>, sets \<^verbatim>\<open>_is_finished\<close> and returns \<^verbatim>\<open>None\<close>.\<close>

function queue_loop :: "walker \<Rightarrow> walk_state \<Rightarrow> error + (commit option \<times> walk_state)" where
  "queue_loop w s =
     (case pq (queue s) of
        [] \<Rightarrow> Inr (None, finish s)
      | popped # rest \<Rightarrow>
          (case queue_step w s popped rest of
             Inl e \<Rightarrow> Inl e
           | Inr (Continue, s') \<Rightarrow> queue_loop w s'
           | Inr (Break, s') \<Rightarrow> Inr (None, finish s')
           | Inr (Yield c, s') \<Rightarrow> Inr (Some c, s')))"
  by pat_completeness auto
termination
proof (relation "measure (\<lambda>(w, s). queue_measure w s)")
  show "wf (measure (\<lambda>(w, s). queue_measure w s))" by simp
next
  fix w s popped rest x2 st s'
  assume "pq (queue s) = popped # rest" and "queue_step w s popped rest = Inr x2" and "(st, s') = x2"
  then have "queue_measure w s' < queue_measure w s"
    using queue_step_measure by metis
  then show "((w, s'), (w, s)) \<in> measure (\<lambda>(w, s). queue_measure w s)" by simp
qed

declare queue_loop.simps [simp del]

definition queue_next :: "walker \<Rightarrow> walk_state \<Rightarrow> error + (commit option \<times> walk_state)" where
  "queue_next w s = (if is_finished (queue s) then Inr (None, s) else queue_loop w s)"

subsection \<open>The walker\<close>

definition new_queue :: queue where
  "new_queue = \<lparr>pq = [], pq_set = {||}, seen = {||}, done_set = {||}, last_commit = None,
                 extra_commits_left = MAX_EXTRA_COMMITS, is_finished = False\<rparr>"

text \<open>\<^verbatim>\<open>Walker.__init__\<close>. The first argument carries the options as they are passed;
  \<^verbatim>\<open>exclude\<close> and \<^verbatim>\<open>paths\<close> are passed beside it, because the constructor turns them
  into the sets of the state. The only check of the constructor is the one on
  \<^verbatim>\<open>order\<close>. The queue is built last and pushes the ids of \<^verbatim>\<open>include\<close> and then those
  of \<^verbatim>\<open>excluded\<close> (here in the order of the argument).\<close>

definition walker_init ::
  "walker \<Rightarrow> commit_id list option \<Rightarrow> pathname option list option
     \<Rightarrow> error + (walker \<times> walk_state)" where
  "walker_init args exclude paths_arg =
     (if order args \<notin> set ALL_ORDERS then Inl (ValueError (''Unknown walk order '' @ order args))
      else
        let excl = (case exclude of None \<Rightarrow> [] | Some xs \<Rightarrow> xs);
            ps = (case paths_arg of None \<Rightarrow> None | Some [] \<Rightarrow> None | Some l \<Rightarrow> Some (remdups l));
            rd = (if follow args \<and> rename_detector args = None
                  then Some (RenameDetector (store args)) else rename_detector args);
            w = args\<lparr>rename_detector := rd\<rparr>;
            s0 = \<lparr>excluded = fset_of_list excl, paths = ps, num_entries = 0,
                  queue = new_queue, out_queue = []\<rparr>
        in case push_all w s0 (include_ids w @ remdups excl) of
             Inl e \<Rightarrow> Inl e
           | Inr s \<Rightarrow> Inr (w, s))"

lemma push_frame:
  "push w s k = Inr s' \<Longrightarrow>
     out_queue s' = out_queue s \<and> num_entries s' = num_entries s \<and> paths s' = paths s
       \<and> excluded s' = excluded s \<and> is_finished (queue s') = is_finished (queue s)"
  by (auto simp: push_def Let_def split: option.splits if_splits)

lemma push_all_frame:
  "push_all w s ks = Inr s' \<Longrightarrow>
     out_queue s' = out_queue s \<and> num_entries s' = num_entries s \<and> paths s' = paths s
       \<and> excluded s' = excluded s \<and> is_finished (queue s') = is_finished (queue s)"
proof (induction ks arbitrary: s)
  case Nil
  then show ?case by simp
next
  case (Cons k ks)
  then obtain s1 where s1: "push w s k = Inr s1" and rest: "push_all w s1 ks = Inr s'"
    by (auto split: sum.splits)
  from push_frame [OF s1] Cons.IH [OF rest] show ?case by simp
qed

lemma exclude_parents_for_frame:
  "exclude_parents_for w s ps todo = Inr (s', todo') \<Longrightarrow>
     out_queue s' = out_queue s \<and> num_entries s' = num_entries s \<and> paths s' = paths s"
  by (induction ps arbitrary: s todo) (auto split: if_splits option.splits)

lemma exclude_parents_loop_frame:
  "exclude_parents_loop w s todo = Inr s' \<Longrightarrow>
     out_queue s' = out_queue s \<and> num_entries s' = num_entries s \<and> paths s' = paths s"
proof (induction w s todo rule: exclude_parents_loop.induct)
  case (1 w s)
  then show ?case by simp
next
  case (2 w s c todo)
  from "2.prems" obtain s1 todo1
    where f: "exclude_parents_for w s (get_parents w c) todo = Inr (s1, todo1)"
      and l: "exclude_parents_loop w s1 todo1 = Inr s'"
    by (auto split: sum.splits)
  from "2.IH" [OF f refl l] exclude_parents_for_frame [OF f] show ?case by simp
qed

lemma exclude_parents_frame:
  "exclude_parents w s c = Inr s' \<Longrightarrow>
     out_queue s' = out_queue s \<and> num_entries s' = num_entries s \<and> paths s' = paths s"
  unfolding exclude_parents_def by (rule exclude_parents_loop_frame)

lemma queue_step_frame:
  assumes "queue_step w s popped rest = Inr (st, s')"
  shows "out_queue s' = out_queue s \<and> num_entries s' = num_entries s \<and> paths s' = paths s"
proof -
  let ?c = "snd popped"
  let ?sha = "cid ?c"
  let ?s1 = "s\<lparr>queue := (queue s)\<lparr>pq := rest, pq_set := pq_set (queue s) |-| {|?sha|}\<rparr>\<rparr>"
  have inset: "?sha |\<in>| pq_set (queue s)"
    using assms by (auto simp: queue_step_def Let_def split: if_splits)
  show ?thesis
  proof (cases "?sha |\<in>| done_set (queue s)")
    case True
    then have "s' = ?s1" using assms inset by (simp add: queue_step_def Let_def)
    then show ?thesis by simp
  next
    case False
    let ?s2 = "?s1\<lparr>queue := (queue ?s1)\<lparr>done_set := finsert ?sha (done_set (queue ?s1))\<rparr>\<rparr>"
    from assms inset False obtain s3 where s3: "push_all w ?s2 (get_parents w ?c) = Inr s3"
      by (auto simp: queue_step_def Let_def split: sum.splits)
    let ?ex = "?sha |\<in>| excluded s3"
    from assms inset False s3 obtain s4
      where s4: "(if ?ex then exclude_parents w s3 ?c else Inr s3) = Inr s4"
      by (simp add: queue_step_def Let_def split: sum.splits)
    have f4: "out_queue s4 = out_queue s3 \<and> num_entries s4 = num_entries s3 \<and> paths s4 = paths s3"
      using s4 exclude_parents_frame by (auto split: if_splits)
    have f3: "out_queue s3 = out_queue s \<and> num_entries s3 = num_entries s \<and> paths s3 = paths s"
      using push_all_frame [OF s3] by simp
    have "out_queue s' = out_queue s4 \<and> num_entries s' = num_entries s4 \<and> paths s' = paths s4"
      using assms inset False s3 s4
      by (auto simp: queue_step_def Let_def split: if_splits)
    with f3 f4 show ?thesis by simp
  qed
qed

lemma queue_loop_measure:
  "queue_loop w s = Inr (r, s') \<Longrightarrow>
     queue_measure w s' \<le> queue_measure w s \<and> (r \<noteq> None \<longrightarrow> queue_measure w s' < queue_measure w s)
       \<and> out_queue s' = out_queue s \<and> num_entries s' = num_entries s \<and> paths s' = paths s"
proof (induction w s arbitrary: r s' rule: queue_loop.induct)
  case (1 w s)
  show ?case
  proof (cases "pq (queue s)")
    case Nil
    then have "r = None" "s' = finish s"
      using "1.prems" by (simp_all add: queue_loop.simps [of w s])
    then show ?thesis by (simp add: finish_def queue_measure_def)
  next
    case (Cons popped rest)
    from "1.prems" Cons obtain st s1 where st: "queue_step w s popped rest = Inr (st, s1)"
      by (auto simp: queue_loop.simps [of w s] split: sum.splits)
    note m = queue_step_measure [OF st Cons]
    note f = queue_step_frame [OF st]
    show ?thesis
    proof (cases st)
      case Continue
      then have "queue_loop w s1 = Inr (r, s')"
        using "1.prems" Cons st by (simp add: queue_loop.simps [of w s])
      from "1.IH" [OF Cons st refl Continue this] m f show ?thesis by auto
    next
      case Break
      then have "r = None" "s' = finish s1"
        using "1.prems" Cons st by (simp_all add: queue_loop.simps [of w s])
      with m f show ?thesis by (simp add: finish_def queue_measure_def)
    next
      case (Yield c)
      then have "r = Some c" "s' = s1"
        using "1.prems" Cons st by (simp_all add: queue_loop.simps [of w s])
      with m f show ?thesis by simp
    qed
  qed
qed

lemma queue_next_measure:
  assumes "queue_next w s = Inr (r, s')"
  shows "queue_measure w s' \<le> queue_measure w s \<and> (r \<noteq> None \<longrightarrow> queue_measure w s' < queue_measure w s)
       \<and> out_queue s' = out_queue s \<and> num_entries s' = num_entries s \<and> paths s' = paths s"
proof (cases "is_finished (queue s)")
  case True
  with assms show ?thesis by (simp add: queue_next_def)
next
  case False
  with assms have "queue_loop w s = Inr (r, s')" by (simp add: queue_next_def)
  then show ?thesis by (rule queue_loop_measure)
qed

lemma change_matches_frame:
  "change_matches w s ch = Inr (b, s') \<Longrightarrow> \<exists>ps. s' = s\<lparr>paths := ps\<rparr>"
  by (auto simp: change_matches_def Let_def split: option.splits sum.splits bool.splits if_splits
           intro: exI [of _ "paths s"])

lemma any_change_matches_frame:
  "any_change_matches w s cs = Inr (b, s') \<Longrightarrow> \<exists>ps. s' = s\<lparr>paths := ps\<rparr>"
proof (induction cs arbitrary: s)
  case Nil
  then show ?case by (auto intro: exI [of _ "paths s"])
next
  case (Cons c cs)
  then obtain b1 s1 where c1: "change_matches w s c = Inr (b1, s1)"
    by (auto split: sum.splits)
  then obtain ps1 where s1: "s1 = s\<lparr>paths := ps1\<rparr>" using change_matches_frame by blast
  show ?case
  proof (cases b1)
    case True
    with Cons.prems c1 s1 show ?thesis by auto
  next
    case False
    with Cons.prems c1 have "any_change_matches w s1 cs = Inr (b, s')" by simp
    from Cons.IH [OF this] s1 show ?thesis by auto
  qed
qed

lemma any_path_changes_match_frame:
  "any_path_changes_match w s css = Inr (b, s') \<Longrightarrow> \<exists>ps. s' = s\<lparr>paths := ps\<rparr>"
proof (induction css arbitrary: s)
  case Nil
  then show ?case by (auto intro: exI [of _ "paths s"])
next
  case (Cons cs css)
  then obtain b1 s1 where c1: "any_change_matches w s cs = Inr (b1, s1)"
    by (auto split: sum.splits)
  then obtain ps1 where s1: "s1 = s\<lparr>paths := ps1\<rparr>" using any_change_matches_frame by blast
  show ?case
  proof (cases b1)
    case True
    with Cons.prems c1 s1 show ?thesis by auto
  next
    case False
    with Cons.prems c1 have "any_path_changes_match w s1 css = Inr (b, s')" by simp
    from Cons.IH [OF this] s1 show ?thesis by auto
  qed
qed

lemma should_return_frame:
  assumes "should_return w s c = Inr (b, s')"
  shows "\<exists>ps. s' = s\<lparr>paths := ps\<rparr>"
proof -
  consider (same) "s' = s"
    | (flat) cs where "any_change_matches w s cs = Inr (b, s')"
    | (merge) css where "any_path_changes_match w s css = Inr (b, s')"
    using assms unfolding should_return_def
    by (auto split: if_splits sum.splits changes.splits)
  then show ?thesis
  proof cases
    case same
    then show ?thesis by (auto intro: exI [of _ "paths s"])
  next
    case flat
    then show ?thesis by (rule any_change_matches_frame)
  next
    case merge
    then show ?thesis by (rule any_path_changes_match_frame)
  qed
qed

definition walk_measure :: "walker \<Rightarrow> walk_state \<Rightarrow> nat" where
  "walk_measure w s = 2 * queue_measure w s + length (out_queue s)"

lemma walk_measure_paths [simp]: "walk_measure w (s\<lparr>paths := ps\<rparr>) = walk_measure w s"
  by (simp add: walk_measure_def queue_measure_def)

text \<open>\<^verbatim>\<open>Walker._next\<close>: entries leave the queue into \<^verbatim>\<open>_out_queue\<close>; once the queue
  is exhausted or the buffer holds more than \<^verbatim>\<open>_MAX_EXTRA_COMMITS\<close> entries, the oldest
  buffered entry is tested with \<^verbatim>\<open>_should_return\<close>.\<close>

function walker_next :: "walker \<Rightarrow> walk_state \<Rightarrow> error + (commit option \<times> walk_state)" where
  "walker_next w s =
     (if max_entries w = None \<or> num_entries s < the (max_entries w) then
        (case queue_next w s of
           Inl e \<Rightarrow> Inl e
         | Inr (entry, s1) \<Rightarrow>
             (let s2 = (case entry of None \<Rightarrow> s1 | Some e \<Rightarrow> s1\<lparr>out_queue := out_queue s1 @ [e]\<rparr>) in
              if entry = None \<or> int (length (out_queue s2)) > MAX_EXTRA_COMMITS then
                (case out_queue s2 of
                   [] \<Rightarrow> Inr (None, s2)
                 | e # rest \<Rightarrow>
                     (case should_return w (s2\<lparr>out_queue := rest\<rparr>) e of
                        Inl err \<Rightarrow> Inl err
                      | Inr (True, s4) \<Rightarrow> Inr (Some e, s4\<lparr>num_entries := num_entries s4 + 1\<rparr>)
                      | Inr (False, s4) \<Rightarrow> walker_next w s4))
              else walker_next w s2))
      else Inr (None, s))"
  by pat_completeness auto

lemma walker_next_pop_measure:
  assumes q: "queue_next w s = Inr (entry, s1)"
    and s2: "s2 = (case entry of None \<Rightarrow> s1 | Some e \<Rightarrow> s1\<lparr>out_queue := out_queue s1 @ [e]\<rparr>)"
    and o: "out_queue s2 = e # rest"
    and r: "should_return w (s2\<lparr>out_queue := rest\<rparr>) e = Inr (b, s4)"
  shows "walk_measure w s4 < walk_measure w s"
proof -
  from should_return_frame [OF r] obtain ps where s4: "s4 = s2\<lparr>out_queue := rest, paths := ps\<rparr>"
    by auto
  have m4: "walk_measure w s4 = 2 * queue_measure w s2 + length rest"
    by (simp add: s4 walk_measure_def queue_measure_def)
  note qm = queue_next_measure [OF q]
  show ?thesis
  proof (cases entry)
    case None
    with s2 o qm have "queue_measure w s2 \<le> queue_measure w s" "length (out_queue s) = Suc (length rest)"
      by auto
    with m4 show ?thesis by (simp add: walk_measure_def)
  next
    case (Some x)
    with s2 o qm have eq: "out_queue s @ [x] = e # rest" by auto
    have "length (out_queue s @ [x]) = length (e # rest)" by (simp only: eq)
    then have "length rest = length (out_queue s)" by simp
    moreover have "queue_measure w s2 < queue_measure w s"
      using Some s2 qm by (auto simp: queue_measure_def)
    ultimately have "queue_measure w s2 < queue_measure w s" "length rest = length (out_queue s)"
      by simp_all
    with m4 show ?thesis by (simp add: walk_measure_def)
  qed
qed

lemma walker_next_keep_measure:
  assumes q: "queue_next w s = Inr (Some e, s1)"
  shows "walk_measure w (s1\<lparr>out_queue := out_queue s1 @ [e]\<rparr>) < walk_measure w s"
proof -
  from queue_next_measure [OF q]
  have "queue_measure w s1 < queue_measure w s" "out_queue s1 = out_queue s" by auto
  then show ?thesis by (simp add: walk_measure_def queue_measure_def)
qed

termination walker_next
proof (relation "measure (\<lambda>(w, s). walk_measure w s)")
  show "wf (measure (\<lambda>(w, s). walk_measure w s))" by simp
next
  fix w s x2 entry s1 s2 e rest x2a b s4
  assume "queue_next w s = Inr x2" "(entry, s1) = x2"
    "s2 = (case entry of None \<Rightarrow> s1 | Some e \<Rightarrow> s1\<lparr>out_queue := out_queue s1 @ [e]\<rparr>)"
    "out_queue s2 = e # rest" "should_return w (s2\<lparr>out_queue := rest\<rparr>) e = Inr x2a"
    "(b, s4) = x2a"
  then have "walk_measure w s4 < walk_measure w s"
    using walker_next_pop_measure [of w s entry s1 s2 e rest b s4] by simp
  then show "((w, s4), (w, s)) \<in> measure (\<lambda>(w, s). walk_measure w s)" by simp
next
  fix w s x2 entry s1 s2
  assume q: "queue_next w s = Inr x2" "(entry, s1) = x2"
    and s2: "s2 = (case entry of None \<Rightarrow> s1 | Some e \<Rightarrow> s1\<lparr>out_queue := out_queue s1 @ [e]\<rparr>)"
    and c: "\<not> (entry = None \<or> MAX_EXTRA_COMMITS < int (length (out_queue s2)))"
  then obtain e where "entry = Some e" by auto
  with q s2 have "walk_measure w s2 < walk_measure w s"
    using walker_next_keep_measure [of w s e s1] by simp
  then show "((w, s2), (w, s)) \<in> measure (\<lambda>(w, s). walk_measure w s)" by simp
qed

declare walker_next.simps [simp del]

lemma walk_measure_num_entries [simp]:
  "walk_measure w (s\<lparr>num_entries := n\<rparr>) = walk_measure w s"
  by (simp add: walk_measure_def queue_measure_def)

definition may_continue :: "walker \<Rightarrow> walk_state \<Rightarrow> bool" where
  "may_continue w s = (max_entries w = None \<or> num_entries s < the (max_entries w))"

lemma walker_next_capped:
  "\<not> may_continue w s \<Longrightarrow> walker_next w s = Inr (None, s)"
  by (subst walker_next.simps) (auto simp: may_continue_def)

lemma walker_next_error:
  "may_continue w s \<Longrightarrow> queue_next w s = Inl e \<Longrightarrow> walker_next w s = Inl e"
  by (subst walker_next.simps) (simp add: may_continue_def)

lemma walker_next_buffer:
  "may_continue w s \<Longrightarrow> queue_next w s = Inr (Some e, s1) \<Longrightarrow>
   \<not> int (length (out_queue s1 @ [e])) > MAX_EXTRA_COMMITS \<Longrightarrow>
   walker_next w s = walker_next w (s1\<lparr>out_queue := out_queue s1 @ [e]\<rparr>)"
  by (subst walker_next.simps) (simp add: may_continue_def)

lemma walker_next_exhausted:
  "may_continue w s \<Longrightarrow> queue_next w s = Inr (None, s1) \<Longrightarrow> out_queue s1 = [] \<Longrightarrow>
   walker_next w s = Inr (None, s1)"
  by (subst walker_next.simps) (simp add: may_continue_def)

lemma walker_next_flush:
  "may_continue w s \<Longrightarrow> queue_next w s = Inr (entry, s1) \<Longrightarrow>
   s2 = (case entry of None \<Rightarrow> s1 | Some e \<Rightarrow> s1\<lparr>out_queue := out_queue s1 @ [e]\<rparr>) \<Longrightarrow>
   entry = None \<or> int (length (out_queue s2)) > MAX_EXTRA_COMMITS \<Longrightarrow>
   out_queue s2 = e # rest \<Longrightarrow>
   walker_next w s =
     (case should_return w (s2\<lparr>out_queue := rest\<rparr>) e of
        Inl err \<Rightarrow> Inl err
      | Inr (True, s4) \<Rightarrow> Inr (Some e, s4\<lparr>num_entries := num_entries s4 + 1\<rparr>)
      | Inr (False, s4) \<Rightarrow> walker_next w s4)"
  by (subst walker_next.simps) (simp add: may_continue_def)


lemma walker_next_measure:
  "walker_next w s = Inr (r, s') \<Longrightarrow>
     walk_measure w s' \<le> walk_measure w s \<and> (r \<noteq> None \<longrightarrow> walk_measure w s' < walk_measure w s)"
proof (induction w s arbitrary: r s' rule: walker_next.induct)
  case (1 w s)
  show ?case
  proof (cases "may_continue w s")
    case False
    with "1.prems" show ?thesis by (simp add: walker_next_capped)
  next
    case True
    then have mc: "max_entries w = None \<or> num_entries s < the (max_entries w)"
      by (simp add: may_continue_def)
    from "1.prems" True obtain entry s1 where q: "queue_next w s = Inr (entry, s1)"
      by (cases "queue_next w s") (auto simp: walker_next_error)
    define s2 where "s2 = (case entry of None \<Rightarrow> s1 | Some e \<Rightarrow> s1\<lparr>out_queue := out_queue s1 @ [e]\<rparr>)"
    note qm = queue_next_measure [OF q]
    show ?thesis
    proof (cases "entry = None \<or> int (length (out_queue s2)) > MAX_EXTRA_COMMITS")
      case False
      then obtain e where e: "entry = Some e" by auto
      have s2e: "s2 = s1\<lparr>out_queue := out_queue s1 @ [e]\<rparr>" by (simp add: s2_def e)
      from False have "\<not> int (length (out_queue s1 @ [e])) > MAX_EXTRA_COMMITS"
        by (simp add: s2e)
      from walker_next_buffer [OF True q [unfolded e] this] "1.prems"
      have rec: "walker_next w s2 = Inr (r, s')" by (simp add: s2e)
      have "walk_measure w s2 < walk_measure w s"
        using walker_next_keep_measure [of w s e s1] q e by (simp add: s2e)
      with "1.IH"(2) [OF mc q refl s2_def False rec] show ?thesis by auto
    next
      case flush: True
      show ?thesis
      proof (cases "out_queue s2")
        case Nil
        then have en: "entry = None" by (auto simp: s2_def split: option.splits)
        then have "s2 = s1" by (simp add: s2_def)
        with Nil en walker_next_exhausted [OF True q [unfolded en]] "1.prems"
        have "r = None" "s' = s1" by simp_all
        then show ?thesis using qm by (simp add: walk_measure_def)
      next
        case (Cons e rest)
        note eq = walker_next_flush [OF True q s2_def flush Cons]
        from "1.prems" eq obtain b s4
          where sr: "should_return w (s2\<lparr>out_queue := rest\<rparr>) e = Inr (b, s4)"
          by (cases "should_return w (s2\<lparr>out_queue := rest\<rparr>) e") auto
        have m4: "walk_measure w s4 < walk_measure w s"
          by (rule walker_next_pop_measure [OF q s2_def Cons sr])
        show ?thesis
        proof (cases b)
          case True
          then have "s' = s4\<lparr>num_entries := num_entries s4 + 1\<rparr>"
            using "1.prems" eq sr by simp
          with m4 show ?thesis by simp
        next
          case False
          then have bF: "b = False" by simp
          have rec: "walker_next w s4 = Inr (r, s')"
            using "1.prems" eq sr bF by simp
          from "1.IH"(1) [OF mc q refl s2_def flush Cons sr refl bF rec] m4
          show ?thesis by auto
        qed
      qed
    qed
  qed
qed


text \<open>The iterator \<^verbatim>\<open>iter(self._next, None)\<close>: the entries returned by successive calls
  of \<^verbatim>\<open>_next\<close> up to the first \<^verbatim>\<open>None\<close>. A stream is the list of the entries yielded
  and then the exception that ended the iteration, if one did.\<close>

type_synonym stream = "commit list \<times> error option"

function results :: "walker \<Rightarrow> walk_state \<Rightarrow> stream" where
  "results w s =
     (case walker_next w s of
        Inl e \<Rightarrow> ([], Some e)
      | Inr (None, s') \<Rightarrow> ([], None)
      | Inr (Some entry, s') \<Rightarrow> (case results w s' of (es, r) \<Rightarrow> (entry # es, r)))"
  by pat_completeness auto
termination
proof (relation "measure (\<lambda>(w, s). walk_measure w s)")
  show "wf (measure (\<lambda>(w, s). walk_measure w s))" by simp
next
  fix w s x2 r s' entry
  assume "walker_next w s = Inr x2" "(r, s') = x2" "r = Some entry"
  then have "walk_measure w s' < walk_measure w s"
    using walker_next_measure [of w s r s'] by simp
  then show "((w, s'), (w, s)) \<in> measure (\<lambda>(w, s). walk_measure w s)" by simp
qed

declare results.simps [simp del]


subsection \<open>Topological reordering\<close>

text \<open>\<^verbatim>\<open>_topo_reorder\<close>. \<^verbatim>\<open>num_children\<close> is a \<^verbatim>\<open>defaultdict(int)\<close>, a function
  into the integers that is 0 by default. \<^verbatim>\<open>pending\<close> is a dictionary from ids to
  entries, kept as an association list with one pair for each key. The deque
  \<^verbatim>\<open>todo\<close> is a list whose head is its left end.\<close>

definition count_parents :: "(commit_id \<Rightarrow> int) \<Rightarrow> commit_id list \<Rightarrow> commit_id \<Rightarrow> int" where
  "count_parents num_children ps = fold (\<lambda>p nc. nc(p := nc p + 1)) ps num_children"

fun ingest ::
  "(commit \<Rightarrow> commit_id list) \<Rightarrow> commit list \<Rightarrow> (commit_id \<Rightarrow> int) \<Rightarrow> (commit_id \<Rightarrow> int)" where
  "ingest gp [] num_children = num_children"
| "ingest gp (entry # rest) num_children = ingest gp rest (count_parents num_children (gp entry))"

definition pending_set :: "(commit_id \<times> commit) list \<Rightarrow> commit_id \<Rightarrow> commit \<Rightarrow> (commit_id \<times> commit) list" where
  "pending_set pending k v = (k, v) # filter (\<lambda>kv. fst kv \<noteq> k) pending"

definition pending_del :: "(commit_id \<times> commit) list \<Rightarrow> commit_id \<Rightarrow> (commit_id \<times> commit) list" where
  "pending_del pending k = filter (\<lambda>kv. fst kv \<noteq> k) pending"

text \<open>The \<^verbatim>\<open>for parent_id in get_parents(commit)\<close> loop of the second phase.\<close>

fun release_parents ::
  "commit_id list \<Rightarrow> commit list \<Rightarrow> (commit_id \<times> commit) list \<Rightarrow> (commit_id \<Rightarrow> int)
     \<Rightarrow> commit list \<times> (commit_id \<times> commit) list \<times> (commit_id \<Rightarrow> int)" where
  "release_parents [] todo pending num_children = (todo, pending, num_children)"
| "release_parents (parent_id # rest) todo pending num_children =
     (let nc = num_children(parent_id := num_children parent_id - 1) in
      if nc parent_id = 0 then
        (case map_of pending parent_id of
           Some parent_entry \<Rightarrow>
             release_parents rest (parent_entry # todo) (pending_del pending parent_id) nc
         | None \<Rightarrow> release_parents rest todo pending nc)
      else release_parents rest todo pending nc)"

lemma length_pending_del_less:
  assumes "map_of pending k = Some v"
  shows "length (pending_del pending k) < length pending"
proof -
  from assms have "(k, v) \<in> set pending" by (rule map_of_SomeD)
  then have "length (filter (\<lambda>kv. fst kv \<noteq> k) pending) < length pending"
    by (rule length_filter_less) simp
  then show ?thesis by (simp only: pending_del_def)
qed

lemma release_parents_move:
  "nc p - 1 = 0 \<Longrightarrow> map_of pending p = Some pe \<Longrightarrow>
   release_parents (p # ps) todo pending nc
     = release_parents ps (pe # todo) (pending_del pending p) (nc(p := nc p - 1))"
  by (simp add: Let_def)

lemma release_parents_skip:
  "nc p - 1 \<noteq> 0 \<or> map_of pending p = None \<Longrightarrow>
   release_parents (p # ps) todo pending nc = release_parents ps todo pending (nc(p := nc p - 1))"
  by (cases "map_of pending p") (auto simp: Let_def)

declare release_parents.simps(2) [simp del]

lemma release_parents_length:
  "release_parents ps todo pending nc = (todo', pending', nc') \<Longrightarrow>
     length todo' + length pending' \<le> length todo + length pending"
proof (induction ps arbitrary: todo pending nc)
  case Nil
  then show ?case by simp
next
  case (Cons p ps)
  let ?nc = "nc(p := nc p - 1)"
  show ?case
  proof (cases "nc p - 1 \<noteq> 0 \<or> map_of pending p = None")
    case False
    then obtain pe where z: "nc p - 1 = 0" and pe: "map_of pending p = Some pe" by auto
    from Cons.prems
    have "release_parents ps (pe # todo) (pending_del pending p) ?nc = (todo', pending', nc')"
      unfolding release_parents_move [of nc p pending pe, OF z pe] .
    from Cons.IH [OF this] length_pending_del_less [OF pe] show ?thesis by simp
  next
    case True
    from Cons.prems have "release_parents ps todo pending ?nc = (todo', pending', nc')"
      unfolding release_parents_skip [of nc p pending, OF True] .
    from Cons.IH [OF this] show ?thesis .
  qed
qed

text \<open>The second phase, \<^verbatim>\<open>while todo\<close>; the list returned is the sequence of the
  entries yielded.\<close>

function topo_emit ::
  "(commit \<Rightarrow> commit_id list) \<Rightarrow> commit list \<Rightarrow> (commit_id \<times> commit) list \<Rightarrow> (commit_id \<Rightarrow> int)
     \<Rightarrow> commit list" where
  "topo_emit gp [] pending num_children = []"
| "topo_emit gp (entry # todo) pending num_children =
     (if num_children (cid entry) \<noteq> 0 then
        topo_emit gp todo (pending_set pending (cid entry) entry) num_children
      else
        (case release_parents (gp entry) todo pending num_children of
           (todo', pending', nc') \<Rightarrow> entry # topo_emit gp todo' pending' nc'))"
  by pat_completeness auto

lemma length_pending_set: "length (pending_set pending k v) \<le> Suc (length pending)"
  by (simp add: pending_set_def)

termination topo_emit
proof (relation "measures [\<lambda>(gp, todo, pending, nc). length todo + length pending,
                           \<lambda>(gp, todo, pending, nc). length todo]", goal_cases)
  case 1
  show ?case by simp
next
  case (2 gp entry todo pending num_children)
  from length_pending_set [of pending "cid entry" entry] show ?case by auto
next
  case 3
  then show ?case
    by (auto split: prod.splits dest: release_parents_length)
qed

declare topo_emit.simps [simp del]

definition topo_reorder :: "(commit \<Rightarrow> commit_id list) \<Rightarrow> commit list \<Rightarrow> commit list" where
  "topo_reorder gp entries = topo_emit gp entries [] (ingest gp entries (\<lambda>_. 0))"

subsection \<open>Reordering and iteration\<close>

text \<open>\<^verbatim>\<open>_topo_reorder\<close> and \<^verbatim>\<open>reversed(list(results))\<close> both read their whole input
  before they yield anything: when the input raises, they raise without an entry
  yielded.\<close>

definition topo_stream :: "(commit \<Rightarrow> commit_id list) \<Rightarrow> stream \<Rightarrow> stream" where
  "topo_stream gp r =
     (case snd r of None \<Rightarrow> (topo_reorder gp (fst r), None) | Some e \<Rightarrow> ([], Some e))"

definition reversed_stream :: "stream \<Rightarrow> stream" where
  "reversed_stream r = (case snd r of None \<Rightarrow> (rev (fst r), None) | Some e \<Rightarrow> ([], Some e))"

definition reorder :: "walker \<Rightarrow> stream \<Rightarrow> stream" where
  "reorder w r =
     (let r1 = (if order w = ORDER_TOPO then topo_stream (get_parents w) r else r)
      in if reverse w then reversed_stream r1 else r1)"

text \<open>\<^verbatim>\<open>Walker.__iter__\<close>, read to its end.\<close>

definition walk :: "walker \<Rightarrow> walk_state \<Rightarrow> stream" where
  "walk w s = reorder w (results w s)"

subsection \<open>The path match as the specification words it\<close>

text \<open>A path \<open>p\<close> matches the set \<open>S\<close> when some element of \<open>S\<close> is \<open>p\<close>, or \<open>p\<close> starts
  with it and the next character of \<open>p\<close> is \<open>/\<close> (the code point 47). This predicate
  follows the words of the specification; it is compared with \<open>path_matches\<close> below.\<close>

definition spec_path_matches :: "nat list list \<Rightarrow> nat list \<Rightarrow> bool" where
  "spec_path_matches S p = list_ex (\<lambda>f. p = f \<or> prefix (f @ [47]) p) S"

subsection \<open>The ids that the queue knows\<close>

text \<open>Every id in \<^verbatim>\<open>_pq_set\<close> or in \<^verbatim>\<open>_done\<close> is a key of the store. The constructor
  builds such a state and the methods keep it so, as is proved below: an id enters
  \<^verbatim>\<open>_pq_set\<close> only after \<^verbatim>\<open>_push\<close> has fetched its commit from the store, and
  \<^verbatim>\<open>_done\<close> only takes ids that \<^verbatim>\<open>next\<close> has removed from \<^verbatim>\<open>_pq_set\<close>.\<close>

definition queue_ok :: "walker \<Rightarrow> walk_state \<Rightarrow> bool" where
  "queue_ok w s =
     fBall (pq_set (queue s) |\<union>| done_set (queue s)) (\<lambda>k. map_of (store w) k \<noteq> None)"

subsection \<open>Options that only the iteration reads\<close>

text \<open>\<^verbatim>\<open>order\<close> and \<^verbatim>\<open>reverse\<close> are read by \<^verbatim>\<open>_reorder\<close> only, \<^verbatim>\<open>max_entries\<close> by
  \<^verbatim>\<open>_next\<close> only and \<^verbatim>\<open>include\<close> by the constructor of the queue only. Two walkers
  that agree on all other fields have the same core.\<close>

definition same_core :: "walker \<Rightarrow> walker \<Rightarrow> bool" where
  "same_core w w' =
     (store w' = store w \<and> get_parents w' = get_parents w \<and> follow w' = follow w
      \<and> since w' = since w \<and> until w' = until w \<and> rename_detector w' = rename_detector w
      \<and> tree_changes w' = tree_changes w
      \<and> tree_changes_for_merge w' = tree_changes_for_merge w)"

subsection \<open>Children and parents in a sequence of entries\<close>

text \<open>\<open>children_count gp es p\<close> is the number of times that the entries of \<open>es\<close> name
  \<open>p\<close> as a parent. \<open>children_first gp out\<close> says that no entry of \<open>out\<close> is named as a
  parent by itself or by an entry that comes after it. \<open>child_edges gp out\<close> holds the
  pairs of a position of a child and a position of one of its parents in \<open>out\<close>.\<close>

definition children_count :: "(commit \<Rightarrow> commit_id list) \<Rightarrow> commit list \<Rightarrow> commit_id \<Rightarrow> nat" where
  "children_count gp es p = sum_list (map (\<lambda>e. count_list (gp e) p) es)"

fun children_first :: "(commit \<Rightarrow> commit_id list) \<Rightarrow> commit list \<Rightarrow> bool" where
  "children_first gp [] = True"
| "children_first gp (e # out) =
     (list_all (\<lambda>x. cid e \<notin> set (gp x)) (e # out) \<and> children_first gp out)"

definition child_edges :: "(commit \<Rightarrow> commit_id list) \<Rightarrow> commit list \<Rightarrow> (nat \<times> nat) set" where
  "child_edges gp out =
     {(j, i). j < length out \<and> i < length out \<and> cid (out ! i) \<in> set (gp (out ! j))}"

subsection \<open>Example inputs\<close>

text \<open>Stores, walkers and states on which the properties below are evaluated.\<close>

definition mk_commit :: "commit_id \<Rightarrow> int \<Rightarrow> commit_id list \<Rightarrow> commit" where
  "mk_commit i t ps = \<lparr>cid = i, commit_time = t, parents = ps, tree = i\<rparr>"

definition mk_walker :: "(commit_id \<times> commit) list \<Rightarrow> commit_id list \<Rightarrow> walker" where
  "mk_walker st inc =
     \<lparr>store = st, include_ids = inc, order = ORDER_DATE, reverse = False, max_entries = None,
      rename_detector = None, get_parents = parents, follow = False, since = None,
      until = None, tree_changes = (\<lambda>_ _ _. []), tree_changes_for_merge = (\<lambda>_ _ _. [])\<rparr>"

definition mk_state :: "queue \<Rightarrow> walk_state" where
  "mk_state q = \<lparr>excluded = {||}, paths = None, num_entries = 0, queue = q, out_queue = []\<rparr>"

text \<open>The \<^verbatim>\<open>str\<close> object of an ASCII literal.\<close>

definition str_of :: "string \<Rightarrow> pathname" where
  "str_of cs = Str (map of_char cs)"

text \<open>A merge commit 3 of the parents 1 and 2; relative to the first parent
  \<^verbatim>\<open>foo/a.txt\<close> and \<^verbatim>\<open>bar/b.txt\<close> are modified, relative to the second only
  \<^verbatim>\<open>bar/b.txt\<close>. The tree paths are \<^verbatim>\<open>bytes\<close> objects; the walker follows the
  \<^verbatim>\<open>str\<close> path \<^verbatim>\<open>'foo/a.txt'\<close>.\<close>

definition modify :: "string \<Rightarrow> tree_change" where
  "modify p = \<lparr>ctype = CHANGE_MODIFY,
               old = \<lparr>path = Some (Bytes p), mode = Some 33188, sha = Some 1\<rparr>,
               new = \<lparr>path = Some (Bytes p), mode = Some 33188, sha = Some 2\<rparr>\<rparr>"

definition merge_store :: "(commit_id \<times> commit) list" where
  "merge_store = [(3, mk_commit 3 30 [1, 2]), (2, mk_commit 2 20 []), (1, mk_commit 1 10 [])]"

definition merge_changes :: "tree_change option list list" where
  "merge_changes = [[Some (modify ''foo/a.txt''), Some (modify ''bar/b.txt'')],
                    [Some (modify ''bar/b.txt''), Some (modify ''bar/b.txt'')]]"

definition merge_walker :: walker where
  "merge_walker = (mk_walker merge_store [3])\<lparr>tree_changes_for_merge := (\<lambda>_ _ _. merge_changes)\<rparr>"

definition foo_state :: walk_state where
  "foo_state = (mk_state new_queue)\<lparr>paths := Some [Some (str_of ''foo/a.txt'')]\<rparr>"

text \<open>A chain of two commits, 2 with the parent 1, walked from 2: the state built by the
  constructor, the state after the first call of \<^verbatim>\<open>_next\<close> and the state after the
  second.\<close>

definition chain2_walker :: walker where
  "chain2_walker = mk_walker [(2, mk_commit 2 20 [1]), (1, mk_commit 1 10 [])] [2]"

definition chain2_state0 :: walk_state where
  "chain2_state0 =
     mk_state (new_queue\<lparr>pq := [(- 20, mk_commit 2 20 [1])], pq_set := {|2|}, seen := {|2|}\<rparr>)"

definition chain2_queue_done :: queue where
  "chain2_queue_done =
     \<lparr>pq = [], pq_set = {||}, seen = {|1, 2|}, done_set = {|1, 2|},
      last_commit = Some (mk_commit 1 10 []), extra_commits_left = 5, is_finished = True\<rparr>"

definition chain2_state1 :: walk_state where
  "chain2_state1 = (mk_state chain2_queue_done)\<lparr>num_entries := 1, out_queue := [mk_commit 1 10 []]\<rparr>"

definition chain2_state2 :: walk_state where
  "chain2_state2 = (mk_state chain2_queue_done)\<lparr>num_entries := 2\<rparr>"

text \<open>A chain of seven commits, 7 down to 1, whose last commit names a parent 0 that the
  store does not hold; \<open>chain7_state0\<close> is the state that the constructor builds.\<close>

definition chain7_walker :: walker where
  "chain7_walker =
     mk_walker [(7, mk_commit 7 70 [6]), (6, mk_commit 6 60 [5]), (5, mk_commit 5 50 [4]),
                (4, mk_commit 4 40 [3]), (3, mk_commit 3 30 [2]), (2, mk_commit 2 20 [1]),
                (1, mk_commit 1 10 [0])] [7]"

definition chain7_state0 :: walk_state where
  "chain7_state0 =
     mk_state (new_queue\<lparr>pq := [(- 70, mk_commit 7 70 [6])], pq_set := {|7|}, seen := {|7|}\<rparr>)"

text \<open>Commit 1 has the parent 2 and commit 2 has the parent 3; the walk starts from 1 and
  3 with \<^verbatim>\<open>since = 20\<close>, and the commit time of commit 2 is before that bound.\<close>

definition pruned_walker :: walker where
  "pruned_walker =
     (mk_walker [(1, mk_commit 1 50 [2]), (2, mk_commit 2 10 [3]), (3, mk_commit 3 100 [])] [1, 3])
       \<lparr>order := ORDER_TOPO, since := Some 20\<rparr>"

definition pruned_state0 :: walk_state where
  "pruned_state0 =
     mk_state (new_queue\<lparr>pq := [(- 100, mk_commit 3 100 []), (- 50, mk_commit 1 50 [2])],
                          pq_set := {|3, 1|}, seen := {|3, 1|}\<rparr>)"

text \<open>Commit 1 has the parent 2, whose commit time is later than that of its child; the
  walk starts from both.\<close>

definition skew_walker :: walker where
  "skew_walker =
     (mk_walker [(1, mk_commit 1 100 [2]), (2, mk_commit 2 200 [])] [1, 2])\<lparr>order := ORDER_TOPO\<rparr>"

definition skew_state0 :: walk_state where
  "skew_state0 =
     mk_state (new_queue\<lparr>pq := [(- 200, mk_commit 2 200 []), (- 100, mk_commit 1 100 [2])],
                          pq_set := {|2, 1|}, seen := {|2, 1|}\<rparr>)"



section \<open>Properties\<close>

subsection \<open>The path filter\<close>

lemma path_matches_loop_no_index_error: "path_matches_loop p ps \<noteq> Inl IndexError"
proof (induction p ps rule: path_matches_loop.induct)
  case (1 changed_path)
  show ?case by simp
next
  case (2 changed_path rest)
  show ?case by simp
next
  case (3 changed_path followed_path rest)
  show ?case by simp
next
  case (4 changed_path followed_path rest)
  have "length followed_path < length changed_path"
    if "prefix followed_path changed_path" "changed_path \<noteq> followed_path"
    using that by (auto simp: prefix_def)
  with 4 show ?case by (auto simp: str_eq_int_def)
qed

lemma path_matches_loop_str:
  "path_matches_loop p (map (\<lambda>f. Some (Str f)) S) = Inr (p \<in> set S)"
proof (induction S)
  case Nil
  show ?case by simp
next
  case (Cons f S)
  have "length f < length p" if "prefix f p" "p \<noteq> f"
    using that by (auto simp: prefix_def)
  with Cons show ?case by (auto simp: str_eq_int_def)
qed

lemma utf8_decode_ascii:
  "list_all (\<lambda>b. b < 128) bs \<Longrightarrow> utf8_decode bs = Some bs"
  by (induction bs) auto

text \<open>
  Claim C10. An absent change (\<^verbatim>\<open>None\<close>, as a merge entry holds for a parent without a
  change at a path) does not match: \<^verbatim>\<open>_change_matches\<close> returns false and the state,
  with its set \<^verbatim>\<open>paths\<close>, is the one it was called in, whatever \<^verbatim>\<open>follow\<close> is.
\<close>

theorem change_matches_absent:
  "change_matches w s None = Inr (False, s) \<and> change_matches (w\<lparr>follow := True\<rparr>) s None = Inr (False, s)"
  by (simp add: change_matches_def)

text \<open>
  Claim C9. \<^verbatim>\<open>_path_matches\<close> never reads \<^verbatim>\<open>changed_path[len(followed_path)]\<close> out of
  bounds: if the changed path starts with a followed path and is not equal to it, it is
  strictly longer, so \<^verbatim>\<open>IndexError\<close> is never the result, for any set of followed paths.
\<close>

theorem path_matches_no_index_error:
  "path_matches s changed_path \<noteq> Inl IndexError
   \<and> (prefix followed_path p \<and> p \<noteq> followed_path \<longrightarrow> length followed_path < length p)"
proof
  show "path_matches s changed_path \<noteq> Inl IndexError"
    by (auto simp: path_matches_def decode_def path_matches_loop_no_index_error
          split: option.splits sum.splits pathname.splits)
  show "prefix followed_path p \<and> p \<noteq> followed_path \<longrightarrow> length followed_path < length p"
    by (auto simp: prefix_def)
qed

theorem path_matches_no_index_error_witness:
  "path_matches \<lparr>excluded = {||}, paths = Some [Some (str_of ''foo'')], num_entries = 0,
                  queue = new_queue, out_queue = []\<rparr> (Some (Bytes ''foo/bar''))
     \<noteq> Inl IndexError
   \<and> prefix ''foo'' ''foo/bar'' \<and> ''foo/bar'' \<noteq> ''foo'' \<and> length ''foo'' < length ''foo/bar''"
  using path_matches_no_index_error
    [where s = "\<lparr>excluded = {||}, paths = Some [Some (str_of ''foo'')], num_entries = 0,
                  queue = new_queue, out_queue = []\<rparr>"
       and changed_path = "Some (Bytes ''foo/bar'')" and followed_path = "''foo''"
       and p = "''foo/bar''"]
  by simp

text \<open>
  Claim C2. By the claim, a changed path \<open>p\<close> matches the set \<open>S\<close> iff some \<open>s\<close> of \<open>S\<close> is
  \<open>p\<close> itself, or is a prefix of \<open>p\<close> that is followed in \<open>p\<close> by \<open>/\<close>; so \<^verbatim>\<open>foo/a.txt\<close>
  matches \<^verbatim>\<open>{foo}\<close>. The code does not compute this. The test of the directory case,
  \<^verbatim>\<open>changed_path[len(followed_path)] == b'/'[0]\<close>, compares a \<^verbatim>\<open>str\<close> with the integer
  47 and is never true: for followed paths that are \<^verbatim>\<open>str\<close> objects \<^verbatim>\<open>_path_matches\<close>
  is the plain membership of \<open>p\<close> in \<open>S\<close>, and \<^verbatim>\<open>foo/a.txt\<close>, as a \<^verbatim>\<open>str\<close> or as a
  \<^verbatim>\<open>bytes\<close> object, does not match \<^verbatim>\<open>{'foo'}\<close>. For a followed path that is a
  \<^verbatim>\<open>bytes\<close> object \<^verbatim>\<open>startswith\<close> raises \<^verbatim>\<open>TypeError\<close>.
\<close>

theorem path_matches_membership:
  "path_matches (s\<lparr>paths := Some (map (\<lambda>f. Some (Str f)) S)\<rparr>) (Some (Str p)) = Inr (p \<in> set S)
   \<and> spec_path_matches [map of_char ''foo''] (map of_char ''foo/a.txt'')
   \<and> path_matches (s\<lparr>paths := Some [Some (str_of ''foo'')]\<rparr>) (Some (str_of ''foo/a.txt''))
       = Inr False
   \<and> path_matches (s\<lparr>paths := Some [Some (str_of ''foo'')]\<rparr>) (Some (Bytes ''foo/a.txt''))
       = Inr False
   \<and> path_matches (s\<lparr>paths := Some [Some (Bytes ''foo'')]\<rparr>) (Some (Bytes ''foo/a.txt''))
       = Inl TypeError"
proof -
  have d: "decode (Bytes ''foo/a.txt'') = Inr (map of_char ''foo/a.txt'')"
    by (simp add: decode_def utf8_decode_ascii)
  have 1: "path_matches (s\<lparr>paths := Some (map (\<lambda>f. Some (Str f)) S)\<rparr>) (Some (Str p))
             = Inr (p \<in> set S)"
    by (simp add: path_matches_def decode_def path_matches_loop_str)
  have 2: "spec_path_matches [map of_char ''foo''] (map of_char ''foo/a.txt'')"
    by (simp add: spec_path_matches_def)
  have 3: "path_matches (s\<lparr>paths := Some [Some (str_of ''foo'')]\<rparr>) (Some (str_of ''foo/a.txt''))
             = Inr False"
    by (simp add: path_matches_def decode_def str_of_def str_eq_int_def)
  have 4: "path_matches (s\<lparr>paths := Some [Some (str_of ''foo'')]\<rparr>) (Some (Bytes ''foo/a.txt''))
             = Inr False"
    by (simp add: path_matches_def d str_of_def str_eq_int_def)
  have 5: "path_matches (s\<lparr>paths := Some [Some (Bytes ''foo'')]\<rparr>) (Some (Bytes ''foo/a.txt''))
             = Inl TypeError"
    by (simp add: path_matches_def d)
  from 1 2 3 4 5 show ?thesis by blast
qed

subsection \<open>The queue's push\<close>

lemma queue_ok_iff:
  "queue_ok w s
     = (\<forall>k. k |\<in>| pq_set (queue s) \<or> k |\<in>| done_set (queue s)
              \<longrightarrow> map_of (store w) k \<noteq> None)"
  unfolding queue_ok_def by blast

lemma queue_ok_eq:
  "pq_set (queue s') = pq_set (queue s) \<Longrightarrow> done_set (queue s') = done_set (queue s) \<Longrightarrow>
     queue_ok w s' = queue_ok w s"
  by (simp add: queue_ok_iff)

lemma queue_ok_init: "queue_ok w \<lparr>excluded = ex, paths = ps, num_entries = n, queue = new_queue,
                                  out_queue = out\<rparr>"
  by (simp add: queue_ok_iff new_queue_def)

lemma queue_ok_push:
  assumes "queue_ok w s" and "push w s k = Inr s'"
  shows "queue_ok w s'"
proof (cases "map_of (store w) k")
  case None
  with assms(2) show ?thesis by (simp add: push_def)
next
  case (Some c)
  show ?thesis
  proof (cases "k |\<notin>| pq_set (queue s) \<and> k |\<notin>| done_set (queue s)")
    case False
    with assms Some show ?thesis by (auto simp: push_def Let_def)
  next
    case True
    then have "s' = s\<lparr>queue := (queue s)\<lparr>pq := heappush (pq (queue s)) (- commit_time c, c),
                                       pq_set := finsert k (pq_set (queue s)),
                                       seen := finsert k (seen (queue s))\<rparr>\<rparr>"
      using assms(2) Some by (simp add: push_def Let_def)
    with assms(1) Some show ?thesis by (auto simp: queue_ok_iff)
  qed
qed

lemma queue_ok_push_all:
  "queue_ok w s \<Longrightarrow> push_all w s ks = Inr s' \<Longrightarrow> queue_ok w s'"
proof (induction ks arbitrary: s)
  case Nil
  then show ?case by simp
next
  case (Cons k ks)
  from Cons.prems(2) obtain s1 where s1: "push w s k = Inr s1" and rest: "push_all w s1 ks = Inr s'"
    by (auto split: sum.splits)
  from Cons.IH [OF queue_ok_push [OF Cons.prems(1) s1] rest] show ?case .
qed

lemma queue_ok_walker_init:
  assumes "walker_init args exclude ps = Inr (w, s)"
  shows "queue_ok w s"
  using assms
  by (auto simp: walker_init_def Let_def split: if_splits sum.splits
        dest: queue_ok_push_all [OF queue_ok_init])

lemma queue_ok_pop:
  assumes "queue_ok w s"
  shows "queue_ok w (s\<lparr>queue := (queue s)\<lparr>pq := rest, pq_set := pq_set (queue s) |-| {|x|}\<rparr>\<rparr>)"
  using assms by (auto simp: queue_ok_iff)

lemma queue_ok_done:
  assumes "queue_ok w s" and "x |\<in>| pq_set (queue s)"
  shows "queue_ok w (s\<lparr>queue := (queue s)\<lparr>pq := rest, pq_set := pq_set (queue s) |-| {|x|},
                                          done_set := finsert x (done_set (queue s))\<rparr>\<rparr>)"
  using assms by (auto simp: queue_ok_iff)

lemma queue_ok_queue_step:
  assumes ok: "queue_ok w s" and st: "queue_step w s popped rest = Inr (st, s')"
  shows "queue_ok w s'"
proof -
  let ?c = "snd popped"
  let ?sha = "cid ?c"
  let ?s1 = "s\<lparr>queue := (queue s)\<lparr>pq := rest, pq_set := pq_set (queue s) |-| {|?sha|}\<rparr>\<rparr>"
  have inset: "?sha |\<in>| pq_set (queue s)"
    using st by (auto simp: queue_step_def Let_def split: if_splits)
  show ?thesis
  proof (cases "?sha |\<in>| done_set (queue s)")
    case True
    then have "s' = ?s1" using st inset by (simp add: queue_step_def Let_def)
    with queue_ok_pop [OF ok] show ?thesis by simp
  next
    case False
    let ?s2 = "?s1\<lparr>queue := (queue ?s1)\<lparr>done_set := finsert ?sha (done_set (queue ?s1))\<rparr>\<rparr>"
    have ok2: "queue_ok w ?s2" using queue_ok_done [OF ok inset, of rest] by simp
    from st inset False obtain s3 where s3: "push_all w ?s2 (get_parents w ?c) = Inr s3"
      by (auto simp: queue_step_def Let_def split: sum.splits)
    have ok3: "queue_ok w s3" by (rule queue_ok_push_all [OF ok2 s3])
    let ?ex = "?sha |\<in>| excluded s3"
    from st inset False s3 obtain s4
      where s4: "(if ?ex then exclude_parents w s3 ?c else Inr s3) = Inr s4"
      by (simp add: queue_step_def Let_def split: sum.splits)
    have q4: "queue s4 = queue s3"
      using s4 exclude_parents_queue by (auto split: if_splits)
    have "pq_set (queue s') = pq_set (queue s4) \<and> done_set (queue s') = done_set (queue s4)"
      using st inset False s3 s4
      by (auto simp: queue_step_def Let_def split: if_splits)
    then have "queue_ok w s' = queue_ok w s3" by (simp add: queue_ok_iff q4)
    with ok3 show ?thesis by simp
  qed
qed

lemma queue_ok_queue_loop:
  "queue_ok w s \<Longrightarrow> queue_loop w s = Inr (r, s') \<Longrightarrow> queue_ok w s'"
proof (induction w s arbitrary: r s' rule: queue_loop.induct)
  case (1 w s)
  show ?case
  proof (cases "pq (queue s)")
    case Nil
    then have "s' = finish s"
      using "1.prems"(2) by (simp add: queue_loop.simps [of w s])
    with "1.prems"(1) show ?thesis by (simp add: finish_def queue_ok_iff)
  next
    case (Cons popped rest)
    from "1.prems"(2) Cons obtain st s1 where qs: "queue_step w s popped rest = Inr (st, s1)"
      by (cases "queue_step w s popped rest") (auto simp: queue_loop.simps [of w s])
    have ok1: "queue_ok w s1" by (rule queue_ok_queue_step [OF "1.prems"(1) qs])
    show ?thesis
    proof (cases st)
      case Continue
      then have "queue_loop w s1 = Inr (r, s')"
        using "1.prems"(2) Cons qs by (simp add: queue_loop.simps [of w s])
      from "1.IH" [OF Cons qs refl Continue ok1 this] show ?thesis .
    next
      case Break
      then have "s' = finish s1"
        using "1.prems"(2) Cons qs by (simp add: queue_loop.simps [of w s])
      with ok1 show ?thesis by (simp add: finish_def queue_ok_iff)
    next
      case (Yield c)
      then have "s' = s1"
        using "1.prems"(2) Cons qs by (simp add: queue_loop.simps [of w s])
      with ok1 show ?thesis by simp
    qed
  qed
qed

lemma queue_ok_queue_next:
  "queue_ok w s \<Longrightarrow> queue_next w s = Inr (r, s') \<Longrightarrow> queue_ok w s'"
  by (cases "is_finished (queue s)") (auto simp: queue_next_def dest: queue_ok_queue_loop)

lemma queue_ok_walker_next:
  "queue_ok w s \<Longrightarrow> walker_next w s = Inr (r, s') \<Longrightarrow> queue_ok w s'"
proof (induction w s arbitrary: r s' rule: walker_next.induct)
  case (1 w s)
  note ok = "1.prems"(1) and wn = "1.prems"(2)
  show ?case
  proof (cases "may_continue w s")
    case False
    with wn ok show ?thesis by (simp add: walker_next_capped)
  next
    case True
    then have mc: "max_entries w = None \<or> num_entries s < the (max_entries w)"
      by (simp add: may_continue_def)
    from wn True obtain entry s1 where q: "queue_next w s = Inr (entry, s1)"
      by (cases "queue_next w s") (auto simp: walker_next_error)
    define s2 where "s2 = (case entry of None \<Rightarrow> s1 | Some e \<Rightarrow> s1\<lparr>out_queue := out_queue s1 @ [e]\<rparr>)"
    have ok1: "queue_ok w s1" by (rule queue_ok_queue_next [OF ok q])
    then have ok2: "queue_ok w s2" by (simp add: s2_def queue_ok_iff split: option.splits)
    show ?thesis
    proof (cases "entry = None \<or> int (length (out_queue s2)) > MAX_EXTRA_COMMITS")
      case False
      then obtain e where e: "entry = Some e" by auto
      have s2e: "s2 = s1\<lparr>out_queue := out_queue s1 @ [e]\<rparr>" by (simp add: s2_def e)
      from False have "\<not> int (length (out_queue s1 @ [e])) > MAX_EXTRA_COMMITS"
        by (simp add: s2e)
      from walker_next_buffer [OF True q [unfolded e] this] wn
      have rec: "walker_next w s2 = Inr (r, s')" by (simp add: s2e)
      from "1.IH"(2) [OF mc q refl s2_def False ok2 rec] show ?thesis .
    next
      case flush: True
      show ?thesis
      proof (cases "out_queue s2")
        case Nil
        then have en: "entry = None" by (auto simp: s2_def split: option.splits)
        then have "s2 = s1" by (simp add: s2_def)
        with Nil en walker_next_exhausted [OF True q [unfolded en]] wn
        have "s' = s1" by simp
        with ok1 show ?thesis by simp
      next
        case (Cons e rest)
        note eq = walker_next_flush [OF True q s2_def flush Cons]
        from wn eq obtain b s4
          where sr: "should_return w (s2\<lparr>out_queue := rest\<rparr>) e = Inr (b, s4)"
          by (cases "should_return w (s2\<lparr>out_queue := rest\<rparr>) e") auto
        from should_return_frame [OF sr] obtain ps where "s4 = s2\<lparr>out_queue := rest, paths := ps\<rparr>"
          by auto
        with ok2 have ok4: "queue_ok w s4" by (simp add: queue_ok_iff)
        show ?thesis
        proof (cases b)
          case True
          then have "s' = s4\<lparr>num_entries := num_entries s4 + 1\<rparr>"
            using wn eq sr by simp
          with ok4 show ?thesis by (simp add: queue_ok_iff)
        next
          case False
          then have bF: "b = False" by simp
          have rec: "walker_next w s4 = Inr (r, s')" using wn eq sr bF by simp
          from "1.IH"(1) [OF mc q refl s2_def flush Cons sr refl bF ok4 rec]
          show ?thesis .
        qed
      qed
    qed
  qed
qed

text \<open>
  Claim C4. Pushing an id that is in \<^verbatim>\<open>_pq_set\<close> or in \<^verbatim>\<open>_done\<close> raises no error and
  leaves the heap, \<^verbatim>\<open>_pq_set\<close>, \<^verbatim>\<open>_seen\<close> and all the rest of the state as they are.
  \<^verbatim>\<open>_push\<close> reads the store before it tests the two sets, but for such an id the read
  cannot fail: the ids of the two sets are keys of the store (\<open>queue_ok\<close>) in the state
  that the constructor builds, and \<^verbatim>\<open>_push\<close>, the pop of \<^verbatim>\<open>next\<close> with its insertion
  into \<^verbatim>\<open>_done\<close>, and \<^verbatim>\<open>Walker._next\<close> keep them so. Only for an id in neither set can
  \<^verbatim>\<open>MissingCommitError\<close> be raised.
\<close>

theorem push_known:
  "(queue_ok w s \<and> (commit_id |\<in>| pq_set (queue s) \<or> commit_id |\<in>| done_set (queue s))
      \<longrightarrow> push w s commit_id = Inr s)
   \<and> (walker_init args exclude paths_arg = Inr (w, s) \<longrightarrow> queue_ok w s)
   \<and> (queue_ok w s \<and> push w s k = Inr s' \<longrightarrow> queue_ok w s')
   \<and> (queue_ok w s \<and> x |\<in>| pq_set (queue s) \<longrightarrow>
        queue_ok w (s\<lparr>queue := (queue s)\<lparr>pq := rest, pq_set := pq_set (queue s) |-| {|x|},
                                         done_set := finsert x (done_set (queue s))\<rparr>\<rparr>))
   \<and> (queue_ok w s \<and> walker_next w s = Inr (r, s'') \<longrightarrow> queue_ok w s'')
   \<and> (queue_ok w s \<and> push w s k = Inl e \<longrightarrow>
        e = MissingCommitError k \<and> k |\<notin>| pq_set (queue s) \<and> k |\<notin>| done_set (queue s))"
proof -
  have 1: "push w s commit_id = Inr s"
    if "queue_ok w s" "commit_id |\<in>| pq_set (queue s) \<or> commit_id |\<in>| done_set (queue s)"
  proof -
    from that have "map_of (store w) commit_id \<noteq> None" by (auto simp: queue_ok_iff)
    with that(2) show ?thesis by (auto simp: push_def Let_def)
  qed
  have 6: "e = MissingCommitError k \<and> k |\<notin>| pq_set (queue s) \<and> k |\<notin>| done_set (queue s)"
    if "queue_ok w s" "push w s k = Inl e"
  proof -
    from that(2) have "map_of (store w) k = None" "e = MissingCommitError k"
      by (auto simp: push_def Let_def split: option.splits if_splits)
    with that(1) show ?thesis by (auto simp: queue_ok_iff)
  qed
  from 1 6 queue_ok_walker_init queue_ok_push queue_ok_done queue_ok_walker_next
  show ?thesis by blast
qed

theorem push_known_witness:
  "walker_init chain2_walker None None = Inr (chain2_walker, chain2_state0)
   \<and> queue_ok chain2_walker chain2_state0
   \<and> 2 |\<in>| pq_set (queue chain2_state0)
   \<and> push chain2_walker chain2_state0 2 = Inr chain2_state0"
proof -
  have i: "walker_init chain2_walker None None = Inr (chain2_walker, chain2_state0)"
    by (simp add: walker_init_def chain2_walker_def chain2_state0_def mk_walker_def mk_state_def
          ALL_ORDERS_def ORDER_DATE_def push_def new_queue_def Let_def mk_commit_def)
  have m: "2 |\<in>| pq_set (queue chain2_state0)"
    by (simp add: chain2_state0_def mk_state_def)
  from push_known [of chain2_walker chain2_state0 2 chain2_walker None None] i m
  show ?thesis by simp
qed

subsection \<open>The constructor\<close>

lemma push_present:
  "map_of (store w) k \<noteq> None \<Longrightarrow> \<exists>s'. push w s k = Inr s'"
  by (auto simp: push_def Let_def split: option.splits)

lemma push_all_present:
  "\<forall>k\<in>set ks. map_of (store w) k \<noteq> None \<Longrightarrow> \<exists>s'. push_all w s ks = Inr s'"
proof (induction ks arbitrary: s)
  case Nil
  show ?case by simp
next
  case (Cons k ks)
  then obtain s1 where s1: "push w s k = Inr s1" using push_present [of w k s] by auto
  from Cons obtain s' where "push_all w s1 ks = Inr s'" by fastforce
  with s1 show ?case by simp
qed

lemma push_all_error:
  "push_all w s ks = Inl e \<Longrightarrow> \<exists>k\<in>set ks. e = MissingCommitError k \<and> map_of (store w) k = None"
proof (induction ks arbitrary: s)
  case Nil
  then show ?case by simp
next
  case (Cons k ks)
  show ?case
  proof (cases "push w s k")
    case (Inl e')
    with Cons.prems have "e' = e" by simp
    with Inl have "e = MissingCommitError k \<and> map_of (store w) k = None"
      by (auto simp: push_def Let_def split: option.splits if_splits)
    then show ?thesis by simp
  next
    case (Inr s1)
    with Cons.prems have "push_all w s1 ks = Inl e" by simp
    from Cons.IH [OF this] show ?thesis by auto
  qed
qed

text \<open>
  Claim C3, as stated: an unknown order token, a negative \<^verbatim>\<open>max_entries\<close> and conflicting
  follow/rename arguments each raise at construction. It fails for the last two: the
  constructor with \<^verbatim>\<open>max_entries = -1\<close> and \<^verbatim>\<open>follow = True\<close> without a rename detector
  returns a walker (with a default detector), and so does the constructor with a
  rename detector and \<^verbatim>\<open>follow = False\<close>.
\<close>

theorem walker_init_counterexample:
  "map_sum id (\<lambda>(w, s). (max_entries w, follow w, rename_detector w))
     (walker_init ((mk_walker [(1, mk_commit 1 10 [])] [1])\<lparr>max_entries := Some (- 1), follow := True\<rparr>)
        None None)
     = Inr (Some (- 1), True, Some (RenameDetector [(1, mk_commit 1 10 [])]))
   \<and> map_sum id (\<lambda>(w, s). (max_entries w, follow w, rename_detector w))
     (walker_init ((mk_walker [(1, mk_commit 1 10 [])] [1])
                     \<lparr>max_entries := Some (- 1), rename_detector := Some (GivenDetector 0)\<rparr>)
        None None)
     = Inr (Some (- 1), False, Some (GivenDetector 0))"
  by (simp add: walker_init_def mk_walker_def ALL_ORDERS_def ORDER_DATE_def ORDER_TOPO_def
                push_def new_queue_def Let_def mk_commit_def)

text \<open>
  Claim C3, amended: the constructor raises, before any iteration, for an unknown order
  token (\<^verbatim>\<open>ValueError\<close>); with a known order token the only error it raises is
  \<^verbatim>\<open>MissingCommitError\<close> for an included or excluded id that the store does not hold.
  When the store holds these ids the construction succeeds whatever \<^verbatim>\<open>max_entries\<close>,
  \<^verbatim>\<open>follow\<close> and \<^verbatim>\<open>rename_detector\<close> are, and keeps \<^verbatim>\<open>max_entries\<close> and
  \<^verbatim>\<open>follow\<close> as given.
\<close>

theorem walker_init_checks:
  "(order args \<notin> set ALL_ORDERS \<longrightarrow>
      walker_init args exclude ps = Inl (ValueError (''Unknown walk order '' @ order args)))
   \<and> (order args \<in> set ALL_ORDERS \<longrightarrow>
        (\<forall>e. walker_init args exclude ps = Inl e \<longrightarrow>
             (\<exists>k. e = MissingCommitError k \<and> map_of (store args) k = None)))
   \<and> (order args \<in> set ALL_ORDERS
        \<and> (\<forall>k\<in>set (include_ids args @ (case exclude of None \<Rightarrow> [] | Some xs \<Rightarrow> xs)).
              map_of (store args) k \<noteq> None) \<longrightarrow>
        (\<exists>w s. walker_init args exclude ps = Inr (w, s)
               \<and> max_entries w = max_entries args \<and> follow w = follow args))"
proof (intro conjI impI allI)
  assume "order args \<notin> set ALL_ORDERS"
  then show "walker_init args exclude ps = Inl (ValueError (''Unknown walk order '' @ order args))"
    by (simp add: walker_init_def)
next
  fix e
  assume o: "order args \<in> set ALL_ORDERS" and e: "walker_init args exclude ps = Inl e"
  then obtain w s ks where "push_all w s ks = Inl e" and "store w = store args"
    by (auto simp: walker_init_def Let_def split: sum.splits)
  with push_all_error [of w s ks e]
  show "\<exists>k. e = MissingCommitError k \<and> map_of (store args) k = None" by auto
next
  assume a: "order args \<in> set ALL_ORDERS
     \<and> (\<forall>k\<in>set (include_ids args @ (case exclude of None \<Rightarrow> [] | Some xs \<Rightarrow> xs)).
              map_of (store args) k \<noteq> None)"
  define excl where "excl = (case exclude of None \<Rightarrow> [] | Some xs \<Rightarrow> xs)"
  define w where "w = args\<lparr>rename_detector :=
     (if follow args \<and> rename_detector args = None
      then Some (RenameDetector (store args)) else rename_detector args)\<rparr>"
  define s0 where "s0 = \<lparr>excluded = fset_of_list excl,
     paths = (case ps of None \<Rightarrow> None | Some [] \<Rightarrow> None | Some l \<Rightarrow> Some (remdups l)),
     num_entries = 0, queue = new_queue, out_queue = []\<rparr>"
  from a have "\<forall>k\<in>set (include_ids w @ remdups excl). map_of (store w) k \<noteq> None"
    by (auto simp: w_def excl_def)
  from push_all_present [OF this] obtain s where s: "push_all w s0 (include_ids w @ remdups excl) = Inr s"
    by blast
  have "walker_init args exclude ps = Inr (w, s)"
    using a s unfolding walker_init_def Let_def excl_def [symmetric] w_def [symmetric]
      s0_def [symmetric]
    by simp
  moreover have "max_entries w = max_entries args" "follow w = follow args"
    by (simp_all add: w_def)
  ultimately show "\<exists>w s. walker_init args exclude ps = Inr (w, s)
               \<and> max_entries w = max_entries args \<and> follow w = follow args"
    by blast
qed

theorem walker_init_checks_witness:
  "walker_init ((mk_walker [(1, mk_commit 1 10 [])] [1])\<lparr>order := ''author''\<rparr>) None None
     = Inl (ValueError ''Unknown walk order author'')
   \<and> walker_init (mk_walker [] [1]) None None = Inl (MissingCommitError 1)
   \<and> (\<exists>w s. walker_init ((mk_walker [(1, mk_commit 1 10 [])] [1])\<lparr>max_entries := Some (- 1)\<rparr>)
               None None = Inr (w, s) \<and> max_entries w = Some (- 1))"
proof -
  let ?a = "(mk_walker [(1, mk_commit 1 10 [])] [1])\<lparr>order := ''author''\<rparr>"
  let ?b = "(mk_walker [(1, mk_commit 1 10 [])] [1])\<lparr>max_entries := Some (- 1)\<rparr>"
  have 1: "walker_init ?a None None = Inl (ValueError ''Unknown walk order author'')"
    using walker_init_checks [of ?a None None]
    by (simp add: mk_walker_def ALL_ORDERS_def ORDER_DATE_def ORDER_TOPO_def)
  have 2: "walker_init (mk_walker [] [1]) None None = Inl (MissingCommitError 1)"
    by (simp add: walker_init_def mk_walker_def ALL_ORDERS_def ORDER_DATE_def ORDER_TOPO_def
                  push_def Let_def)
  have 3: "\<exists>w s. walker_init ?b None None = Inr (w, s) \<and> max_entries w = Some (- 1)"
  proof -
    have o: "order ?b \<in> set ALL_ORDERS"
      by (simp add: mk_walker_def ALL_ORDERS_def)
    have p: "\<forall>k\<in>set (include_ids ?b @ (case None of None \<Rightarrow> [] | Some xs \<Rightarrow> xs)).
               map_of (store ?b) k \<noteq> None"
      by (simp add: mk_walker_def)
    have m: "max_entries ?b = Some (- 1)" by simp
    from walker_init_checks [of ?b None None] o p
    obtain w s where "walker_init ?b None None = Inr (w, s)" "max_entries w = max_entries ?b"
      by blast
    with m show ?thesis by auto
  qed
  from 1 2 3 show ?thesis by blast
qed

subsection \<open>Merge commits under a path filter\<close>

lemma change_matches_false_state:
  "change_matches w s ch = Inr (False, s') \<Longrightarrow> s' = s"
  by (auto simp: change_matches_def Let_def
        split: option.splits sum.splits bool.splits if_splits)

lemma any_change_matches_find:
  "any_change_matches w s cs
     = (case find (\<lambda>ch. change_matches w s ch \<noteq> Inr (False, s)) cs of
          None \<Rightarrow> Inr (False, s)
        | Some ch \<Rightarrow> change_matches w s ch)"
proof (induction cs)
  case Nil
  show ?case by simp
next
  case (Cons ch cs)
  show ?case
  proof (cases "change_matches w s ch")
    case (Inl e)
    then show ?thesis by simp
  next
    case (Inr p)
    obtain b s1 where p: "p = (b, s1)" by (cases p)
    show ?thesis
    proof (cases b)
      case True
      with Inr p show ?thesis by simp
    next
      case False
      with Inr p have "s1 = s" by (auto dest: change_matches_false_state)
      with Inr p False Cons show ?thesis by simp
    qed
  qed
qed

lemma find_append_case:
  "find P (xs @ ys) = (case find P xs of None \<Rightarrow> find P ys | Some x \<Rightarrow> Some x)"
  by (induction xs) auto

lemma find_Some_set: "find P xs = Some x \<Longrightarrow> x \<in> set xs \<and> P x"
  by (induction xs) (auto split: if_splits)

lemma any_path_changes_match_find:
  "any_path_changes_match w s css
     = (case find (\<lambda>ch. change_matches w s ch \<noteq> Inr (False, s)) (concat css) of
          None \<Rightarrow> Inr (False, s)
        | Some ch \<Rightarrow> change_matches w s ch)"
proof (induction css)
  case Nil
  show ?case by simp
next
  case (Cons pcs css)
  let ?P = "\<lambda>ch. change_matches w s ch \<noteq> Inr (False, s)"
  show ?case
  proof (cases "find ?P pcs")
    case None
    then have "any_change_matches w s pcs = Inr (False, s)"
      by (simp add: any_change_matches_find)
    with None Cons show ?thesis by (simp add: find_append_case)
  next
    case (Some ch)
    then have r: "any_change_matches w s pcs = change_matches w s ch"
      by (simp add: any_change_matches_find)
    from find_Some_set [OF Some] have ne: "change_matches w s ch \<noteq> Inr (False, s)"
      by simp
    have "any_path_changes_match w s (pcs # css) = change_matches w s ch"
    proof (cases "change_matches w s ch")
      case (Inl e)
      with r show ?thesis by simp
    next
      case (Inr p)
      obtain b s1 where p: "p = (b, s1)" by (cases p)
      show ?thesis
      proof (cases b)
        case True
        with Inr p r show ?thesis by simp
      next
        case False
        with Inr p have "s1 = s" by (auto dest: change_matches_false_state)
        with Inr p False ne show ?thesis by simp
      qed
    qed
    with Some show ?thesis by (simp add: find_append_case)
  qed
qed

lemma merge_changes_foo:
  "change_matches merge_walker foo_state (Some (modify ''foo/a.txt'')) = Inr (True, foo_state)"
  by (simp add: change_matches_def path_matches_def decode_def utf8_decode_ascii modify_def
        foo_state_def mk_state_def str_of_def merge_walker_def mk_walker_def Let_def)

lemma merge_changes_bar:
  "change_matches merge_walker foo_state (Some (modify ''bar/b.txt'')) = Inr (False, foo_state)"
  by (simp add: change_matches_def path_matches_def decode_def utf8_decode_ascii modify_def
        foo_state_def mk_state_def str_of_def Let_def)

text \<open>
  Claim C1, as stated: a merge commit passes a non-empty path filter only if a matching
  change appears in the change list of every parent. It fails: the merge commit 3 below
  has two inner change lists; the first holds a change of \<^verbatim>\<open>foo/a.txt\<close>, no change of
  the second matches, and the entry passes the filter \<^verbatim>\<open>{'foo/a.txt'}\<close>.
\<close>

theorem should_return_merge_counterexample:
  "length (get_parents merge_walker (mk_commit 3 30 [1, 2])) = 2
   \<and> paths foo_state = Some [Some (str_of ''foo/a.txt'')]
   \<and> entry_changes merge_walker (mk_commit 3 30 [1, 2]) = Inr (MergeChanges merge_changes)
   \<and> length merge_changes = 2
   \<and> any_change_matches merge_walker foo_state (merge_changes ! 1) = Inr (False, foo_state)
   \<and> should_return merge_walker foo_state (mk_commit 3 30 [1, 2]) = Inr (True, foo_state)"
proof -
  have e: "entry_changes merge_walker (mk_commit 3 30 [1, 2]) = Inr (MergeChanges merge_changes)"
    by (simp add: entry_changes_def merge_walker_def mk_walker_def mk_commit_def
          merge_store_def Let_def)
  have s: "should_return merge_walker foo_state (mk_commit 3 30 [1, 2])
             = any_path_changes_match merge_walker foo_state merge_changes"
    unfolding should_return_def e
    by (simp add: merge_walker_def mk_walker_def mk_commit_def foo_state_def mk_state_def)
  show ?thesis
    unfolding s e
    by (simp add: merge_changes_def merge_changes_foo merge_changes_bar)
      (simp add: merge_walker_def mk_walker_def mk_commit_def foo_state_def mk_state_def)
qed

text \<open>
  Claim C1, amended: a merge commit (two or more parents) that is not cut off by the date
  bounds or the exclusion passes a non-empty path filter if and only if some change in
  the change list of some parent matches the filter, as long as no change raises. The
  inner lists are scanned in their order as one sequence, and the result is the result of
  \<^verbatim>\<open>_change_matches\<close> on the first change on which it does not return false: a change
  that matches in only one parent's change list qualifies the entry; a match in every
  list is not needed.
\<close>

theorem should_return_merge:
  assumes merge: "length (get_parents w c) > 1"
    and trees: "lookup_trees (store w) (get_parents w c) = Inr ts"
    and css: "css = tree_changes_for_merge w (rename_detector w) ts (tree c)"
    and filter: "paths s \<noteq> None"
    and lower: "since w = None \<or> the (since w) \<le> commit_time c"
    and upper: "until w = None \<or> commit_time c \<le> the (until w)"
    and incl: "cid c |\<notin>| excluded s"
  shows "should_return w s c
           = (case find (\<lambda>ch. change_matches w s ch \<noteq> Inr (False, s)) (concat css) of
                None \<Rightarrow> Inr (False, s)
              | Some ch \<Rightarrow> change_matches w s ch)
     \<and> (should_return w s c = Inr (True, s') \<longrightarrow>
          (\<exists>pcs\<in>set css. \<exists>ch\<in>set pcs. change_matches w s ch = Inr (True, s')))
     \<and> ((\<exists>pcs\<in>set css. \<exists>ch\<in>set pcs. \<exists>s1. change_matches w s ch = Inr (True, s1))
          \<and> (\<forall>pcs\<in>set css. \<forall>ch\<in>set pcs. \<forall>e. change_matches w s ch \<noteq> Inl e)
        \<longrightarrow> (\<exists>s1. should_return w s c = Inr (True, s1)))"
proof -
  let ?P = "\<lambda>ch. change_matches w s ch \<noteq> Inr (False, s)"
  have ec: "entry_changes w c = Inr (MergeChanges css)"
    using merge trees css by (auto simp: entry_changes_def Let_def)
  have "should_return w s c = any_path_changes_match w s css"
    using lower upper incl filter ec by (auto simp: should_return_def)
  then have sr: "should_return w s c
                   = (case find ?P (concat css) of
                        None \<Rightarrow> Inr (False, s)
                      | Some ch \<Rightarrow> change_matches w s ch)"
    by (simp add: any_path_changes_match_find)
  have only: "\<exists>pcs\<in>set css. \<exists>ch\<in>set pcs. change_matches w s ch = Inr (True, s')"
    if t: "should_return w s c = Inr (True, s')"
  proof (cases "find ?P (concat css)")
    case None
    with sr t show ?thesis by simp
  next
    case (Some ch)
    from find_Some_set [OF Some] have "ch \<in> set (concat css)" by simp
    moreover from Some sr t have "change_matches w s ch = Inr (True, s')" by simp
    ultimately show ?thesis by auto
  qed
  have ifp: "\<exists>s1. should_return w s c = Inr (True, s1)"
    if m: "\<exists>pcs\<in>set css. \<exists>ch\<in>set pcs. \<exists>s1. change_matches w s ch = Inr (True, s1)"
      and n: "\<forall>pcs\<in>set css. \<forall>ch\<in>set pcs. \<forall>e. change_matches w s ch \<noteq> Inl e"
  proof (cases "find ?P (concat css)")
    case None
    then have "\<forall>pcs\<in>set css. \<forall>ch\<in>set pcs. change_matches w s ch = Inr (False, s)"
      by (simp add: find_None_iff) blast
    with m show ?thesis by auto
  next
    case (Some ch)
    from find_Some_set [OF Some]
    have mem: "ch \<in> set (concat css)" and ne: "change_matches w s ch \<noteq> Inr (False, s)"
      by simp_all
    from mem n have ner: "\<forall>e. change_matches w s ch \<noteq> Inl e" by auto
    obtain b s1 where r: "change_matches w s ch = Inr (b, s1)"
      using ner by (cases "change_matches w s ch") auto
    have "b"
    proof (rule ccontr)
      assume "\<not> b"
      with r have "change_matches w s ch = Inr (False, s1)" by simp
      with change_matches_false_state [of w s ch s1] ne show False by simp
    qed
    with r Some sr show ?thesis by simp
  qed
  from sr only ifp show ?thesis by blast
qed

theorem should_return_merge_witness:
  "length (get_parents merge_walker (mk_commit 3 30 [1, 2])) > 1
   \<and> paths foo_state \<noteq> None
   \<and> should_return merge_walker foo_state (mk_commit 3 30 [1, 2]) = Inr (True, foo_state)"
proof -
  let ?c = "mk_commit 3 30 [1, 2]"
  have 1: "length (get_parents merge_walker ?c) > 1"
    by (simp add: merge_walker_def mk_walker_def mk_commit_def)
  have 2: "lookup_trees (store merge_walker) (get_parents merge_walker ?c) = Inr [1, 2]"
    by (simp add: merge_walker_def mk_walker_def mk_commit_def merge_store_def)
  have 3: "merge_changes = tree_changes_for_merge merge_walker (rename_detector merge_walker)
             [1, 2] (tree ?c)"
    by (simp add: merge_walker_def mk_walker_def)
  have 4: "paths foo_state \<noteq> None"
    by (simp add: foo_state_def mk_state_def)
  have 5: "since merge_walker = None \<or> the (since merge_walker) \<le> commit_time ?c"
    "until merge_walker = None \<or> commit_time ?c \<le> the (until merge_walker)"
    "cid ?c |\<notin>| excluded foo_state"
    by (simp_all add: merge_walker_def mk_walker_def foo_state_def mk_state_def)
  have 6: "find (\<lambda>ch. change_matches merge_walker foo_state ch \<noteq> Inr (False, foo_state))
             (concat merge_changes) = Some (Some (modify ''foo/a.txt''))"
    by (simp add: merge_changes_def merge_changes_foo)
  from should_return_merge [OF 1 2 3 4 5, of foo_state] 1 4 show ?thesis
    by (simp add: 6 merge_changes_foo)
qed

subsection \<open>Exhaustion\<close>

lemma queue_loop_none_finished:
  "queue_loop w s = Inr (None, s') \<Longrightarrow> is_finished (queue s')"
proof (induction w s arbitrary: s' rule: queue_loop.induct)
  case (1 w s)
  show ?case
  proof (cases "pq (queue s)")
    case Nil
    with "1.prems" show ?thesis by (auto simp: queue_loop.simps [of w s] finish_def)
  next
    case (Cons popped rest)
    from "1.prems" Cons obtain st s1 where st: "queue_step w s popped rest = Inr (st, s1)"
      by (auto simp: queue_loop.simps [of w s] split: sum.splits)
    show ?thesis
    proof (cases st)
      case Continue
      then have "queue_loop w s1 = Inr (None, s')"
        using "1.prems" Cons st by (simp add: queue_loop.simps [of w s])
      from "1.IH" [OF Cons st refl Continue this] show ?thesis .
    next
      case Break
      then show ?thesis
        using "1.prems" Cons st by (auto simp: queue_loop.simps [of w s] finish_def)
    next
      case (Yield c)
      then show ?thesis
        using "1.prems" Cons st by (simp add: queue_loop.simps [of w s])
    qed
  qed
qed

lemma queue_next_none:
  assumes "queue_next w s = Inr (None, s')"
  shows "is_finished (queue s') \<and> queue_next w s' = Inr (None, s')"
proof -
  have "is_finished (queue s')"
  proof (cases "is_finished (queue s)")
    case True
    with assms show ?thesis by (simp add: queue_next_def)
  next
    case False
    with assms have "queue_loop w s = Inr (None, s')" by (simp add: queue_next_def)
    then show ?thesis by (rule queue_loop_none_finished)
  qed
  then show ?thesis by (simp add: queue_next_def)
qed

lemma walker_next_none:
  "walker_next w s = Inr (None, s') \<Longrightarrow> walker_next w s' = Inr (None, s')"
proof (induction w s arbitrary: s' rule: walker_next.induct)
  case (1 w s)
  show ?case
  proof (cases "may_continue w s")
    case False
    with "1.prems" have "s' = s" by (simp add: walker_next_capped)
    with False show ?thesis by (simp add: walker_next_capped)
  next
    case True
    then have mc: "max_entries w = None \<or> num_entries s < the (max_entries w)"
      by (simp add: may_continue_def)
    from "1.prems" True obtain entry s1 where q: "queue_next w s = Inr (entry, s1)"
      by (cases "queue_next w s") (auto simp: walker_next_error)
    define s2 where "s2 = (case entry of None \<Rightarrow> s1 | Some e \<Rightarrow> s1\<lparr>out_queue := out_queue s1 @ [e]\<rparr>)"
    show ?thesis
    proof (cases "entry = None \<or> int (length (out_queue s2)) > MAX_EXTRA_COMMITS")
      case False
      then obtain e where e: "entry = Some e" by auto
      have s2e: "s2 = s1\<lparr>out_queue := out_queue s1 @ [e]\<rparr>" by (simp add: s2_def e)
      from False have "\<not> int (length (out_queue s1 @ [e])) > MAX_EXTRA_COMMITS"
        by (simp add: s2e)
      from walker_next_buffer [OF True q [unfolded e] this] "1.prems"
      have rec: "walker_next w s2 = Inr (None, s')" by (simp add: s2e)
      from "1.IH"(2) [OF mc q refl s2_def False rec] show ?thesis .
    next
      case flush: True
      show ?thesis
      proof (cases "out_queue s2")
        case Nil
        then have en: "entry = None" by (auto simp: s2_def split: option.splits)
        then have s21: "s2 = s1" by (simp add: s2_def)
        from Nil en s21 walker_next_exhausted [OF True q [unfolded en]] "1.prems"
        have s': "s' = s1" by simp
        have "num_entries s1 = num_entries s"
          using queue_next_measure [OF q] by simp
        with True have mc1: "may_continue w s1" by (simp add: may_continue_def)
        from q en have "queue_next w s1 = Inr (None, s1)" using queue_next_none by blast
        from walker_next_exhausted [OF mc1 this] Nil s21 s' show ?thesis by simp
      next
        case (Cons e rest)
        note eq = walker_next_flush [OF True q s2_def flush Cons]
        from "1.prems" eq obtain b s4
          where sr: "should_return w (s2\<lparr>out_queue := rest\<rparr>) e = Inr (b, s4)"
          by (cases "should_return w (s2\<lparr>out_queue := rest\<rparr>) e") auto
        have bF: "b = False" using "1.prems" eq sr by (cases b) auto
        have rec: "walker_next w s4 = Inr (None, s')" using "1.prems" eq sr bF by simp
        from "1.IH"(1) [OF mc q refl s2_def flush Cons sr refl bF rec] show ?thesis .
      qed
    qed
  qed
qed

lemma walker_next_finished:
  "is_finished (queue s) \<Longrightarrow> walker_next w s = Inr (r, s') \<Longrightarrow>
     is_finished (queue s')
     \<and> (\<forall>e. r = Some e \<longrightarrow> (\<exists>pre. out_queue s = pre @ e # out_queue s'))"
proof (induction w s arbitrary: r s' rule: walker_next.induct)
  case (1 w s)
  note fin = "1.prems"(1) and res = "1.prems"(2)
  show ?case
  proof (cases "may_continue w s")
    case False
    with res fin show ?thesis by (simp add: walker_next_capped)
  next
    case True
    then have mc: "max_entries w = None \<or> num_entries s < the (max_entries w)"
      by (simp add: may_continue_def)
    have q: "queue_next w s = Inr (None, s)" using fin by (simp add: queue_next_def)
    have s2: "s = (case None of None \<Rightarrow> s | Some e \<Rightarrow> s\<lparr>out_queue := out_queue s @ [e]\<rparr>)"
      by simp
    have flush: "(None :: commit option) = None \<or> int (length (out_queue s)) > MAX_EXTRA_COMMITS"
      by simp
    show ?thesis
    proof (cases "out_queue s")
      case Nil
      from walker_next_exhausted [OF True q Nil] res fin show ?thesis by simp
    next
      case (Cons e rest)
      note eq = walker_next_flush [OF True q s2 flush Cons]
      from res eq obtain b s4
        where sr: "should_return w (s\<lparr>out_queue := rest\<rparr>) e = Inr (b, s4)"
        by (cases "should_return w (s\<lparr>out_queue := rest\<rparr>) e") auto
      from should_return_frame [OF sr] obtain ps where s4: "s4 = s\<lparr>out_queue := rest, paths := ps\<rparr>"
        by auto
      show ?thesis
      proof (cases b)
        case True
        then have "r = Some e" "s' = s4\<lparr>num_entries := num_entries s4 + 1\<rparr>"
          using res eq sr by simp_all
        with s4 fin Cons show ?thesis by simp
      next
        case False
        then have bF: "b = False" by simp
        have rec: "walker_next w s4 = Inr (r, s')" using res eq sr bF by simp
        have fin4: "is_finished (queue s4)" using fin s4 by simp
        from "1.IH"(1) [OF mc q refl s2 flush Cons sr refl bF fin4 rec]
        have f': "is_finished (queue s')"
          and o': "\<forall>e'. r = Some e' \<longrightarrow> (\<exists>pre. out_queue s4 = pre @ e' # out_queue s')"
          by simp_all
        have "\<exists>pre. out_queue s = pre @ e' # out_queue s'" if "r = Some e'" for e'
        proof -
          from o' that obtain pre where "out_queue s4 = pre @ e' # out_queue s'" by blast
          with s4 Cons have "out_queue s = (e # pre) @ e' # out_queue s'" by simp
          then show ?thesis by blast
        qed
        with f' show ?thesis by blast
      qed
    qed
  qed
qed

lemma results_finished:
  "is_finished (queue s) \<Longrightarrow> subseq (fst (results w s)) (out_queue s)"
proof (induction w s rule: results.induct)
  case (1 w s)
  show ?case
  proof (cases "walker_next w s")
    case (Inl e)
    then show ?thesis by (simp add: results.simps [of w s])
  next
    case (Inr p)
    obtain r s1 where p: "p = (r, s1)" by (cases p)
    show ?thesis
    proof (cases r)
      case None
      with Inr p show ?thesis by (simp add: results.simps [of w s])
    next
      case (Some e)
      from walker_next_finished [OF "1.prems" Inr [unfolded p]] Some
      obtain pre where f1: "is_finished (queue s1)" and o: "out_queue s = pre @ e # out_queue s1"
        by blast
      from "1.IH" [OF Inr p [symmetric] Some f1]
      have "subseq (fst (results w s1)) (out_queue s1)" .
      then have "subseq (e # fst (results w s1)) (pre @ e # out_queue s1)"
        by (simp add: list_emb_append2)
      moreover have "fst (results w s) = e # fst (results w s1)"
        using Inr p Some by (simp add: results.simps [of w s] split: prod.splits)
      ultimately show ?thesis using o by simp
    qed
  qed
qed

text \<open>
  Claim C8, as stated: once \<^verbatim>\<open>next()\<close> of the queue has returned \<^verbatim>\<open>None\<close>, the walker's
  iteration never yields another entry. It fails, because the walker holds entries back
  in \<^verbatim>\<open>_out_queue\<close>. In the walk of the chain 2, 1 the first call of \<^verbatim>\<open>_next\<close> yields
  commit 2 and leaves a state in which the queue is exhausted (its \<^verbatim>\<open>next()\<close> returns
  \<^verbatim>\<open>None\<close>); the second call of \<^verbatim>\<open>_next\<close> then yields commit 1.
\<close>

theorem exhaustion_counterexample:
  "walker_next chain2_walker chain2_state0 = Inr (Some (mk_commit 2 20 [1]), chain2_state1)
   \<and> queue_next chain2_walker chain2_state1 = Inr (None, chain2_state1)
   \<and> walker_next chain2_walker chain2_state1 = Inr (Some (mk_commit 1 10 []), chain2_state2)"
  by code_simp

text \<open>
  Claim C8, amended. Exhaustion of the queue and of the walker is permanent. Once
  \<^verbatim>\<open>next()\<close> of the queue has returned \<^verbatim>\<open>None\<close> (the heap drained, or the slack counter
  reached zero) the queue is marked finished and every later call returns \<^verbatim>\<open>None\<close>
  again and leaves the state as it is; from then on the walker yields only entries that
  are already in its output buffer, in their order. Once the walker's \<^verbatim>\<open>_next\<close> has
  returned \<^verbatim>\<open>None\<close>, every later call of \<^verbatim>\<open>_next\<close> returns \<^verbatim>\<open>None\<close> and leaves the
  state as it is, so the iteration never yields another entry.
\<close>

theorem exhaustion_permanent:
  "(queue_next w s = Inr (None, s') \<longrightarrow>
      is_finished (queue s') \<and> queue_next w s' = Inr (None, s')
      \<and> subseq (fst (results w s')) (out_queue s'))
   \<and> (walker_next w t = Inr (None, t') \<longrightarrow>
        walker_next w t' = Inr (None, t') \<and> results w t' = ([], None))"
proof (intro conjI impI)
  assume "queue_next w s = Inr (None, s')"
  then show f: "is_finished (queue s')" and "queue_next w s' = Inr (None, s')"
    using queue_next_none by blast+
  from f show "subseq (fst (results w s')) (out_queue s')" by (rule results_finished)
next
  assume "walker_next w t = Inr (None, t')"
  then have n: "walker_next w t' = Inr (None, t')" by (rule walker_next_none)
  then show "walker_next w t' = Inr (None, t')" .
  from n show "results w t' = ([], None)" by (simp add: results.simps [of w t'])
qed

theorem exhaustion_permanent_witness:
  "queue_next chain2_walker chain2_state1 = Inr (None, chain2_state1)
   \<and> is_finished (queue chain2_state1)
   \<and> subseq (fst (results chain2_walker chain2_state1)) [mk_commit 1 10 []]
   \<and> walker_next chain2_walker chain2_state2 = Inr (None, chain2_state2)
   \<and> results chain2_walker chain2_state2 = ([], None)"
proof -
  have q: "queue_next chain2_walker chain2_state1 = Inr (None, chain2_state1)"
    by code_simp
  have n: "walker_next chain2_walker chain2_state2 = Inr (None, chain2_state2)"
    by code_simp
  have o: "out_queue chain2_state1 = [mk_commit 1 10 []]"
    by (simp add: chain2_state1_def mk_state_def)
  from exhaustion_permanent
         [of chain2_walker chain2_state1 chain2_state1 chain2_state2 chain2_state2] q n o
  show ?thesis by simp
qed

subsection \<open>Reordering options do not change the traversal\<close>

lemma push_core: "same_core w w' \<Longrightarrow> push w' s k = push w s k"
  by (simp add: same_core_def push_def)

lemma push_all_core: "same_core w w' \<Longrightarrow> push_all w' s ks = push_all w s ks"
  by (induction ks arbitrary: s) (simp_all add: push_core split: sum.splits)

lemma exclude_parents_for_core:
  "same_core w w' \<Longrightarrow> exclude_parents_for w' s ps todo = exclude_parents_for w s ps todo"
  by (induction ps arbitrary: s todo) (simp_all add: same_core_def split: option.splits)

lemma exclude_parents_loop_core:
  "same_core w w' \<Longrightarrow> exclude_parents_loop w' s todo = exclude_parents_loop w s todo"
proof (induction w s todo rule: exclude_parents_loop.induct)
  case (1 w s)
  show ?case by simp
next
  case (2 w s c todo)
  have gp: "get_parents w' c = get_parents w c" using "2.prems" by (simp add: same_core_def)
  show ?case
  proof (cases "exclude_parents_for w s (get_parents w c) todo")
    case (Inl e)
    then show ?thesis by (simp add: gp exclude_parents_for_core [OF "2.prems"])
  next
    case (Inr p)
    obtain s1 todo1 where p: "p = (s1, todo1)" by (cases p)
    from "2.IH" [OF Inr p [symmetric] "2.prems"] Inr p
    show ?thesis by (simp add: gp exclude_parents_for_core [OF "2.prems"])
  qed
qed

lemma exclude_parents_core:
  "same_core w w' \<Longrightarrow> exclude_parents w' s c = exclude_parents w s c"
  unfolding exclude_parents_def by (rule exclude_parents_loop_core)

lemma reset_extra_commits_core:
  assumes "same_core w w'"
  shows "reset_extra_commits w' s c b = reset_extra_commits w s c b"
proof -
  have si: "since w' = since w" using assms by (simp add: same_core_def)
  show ?thesis unfolding reset_extra_commits_def si by (rule refl)
qed

lemma queue_step_core:
  assumes "same_core w w'"
  shows "queue_step w' s popped rest = queue_step w s popped rest"
proof -
  have gp: "get_parents w' = get_parents w"
    using assms by (simp add: same_core_def)
  show ?thesis
    unfolding queue_step_def push_all_core [OF assms] exclude_parents_core [OF assms]
      reset_extra_commits_core [OF assms] gp
    by (rule refl)
qed

lemma queue_loop_core:
  "same_core w w' \<Longrightarrow> queue_loop w' s = queue_loop w s"
proof (induction w s rule: queue_loop.induct)
  case (1 w s)
  show ?case
  proof (cases "pq (queue s)")
    case Nil
    then show ?thesis by (simp add: queue_loop.simps [of w s] queue_loop.simps [of w' s])
  next
    case (Cons popped rest)
    note st = queue_step_core [OF "1.prems", of s popped rest]
    show ?thesis
    proof (cases "queue_step w s popped rest")
      case (Inl e)
      with Cons st show ?thesis
        by (simp add: queue_loop.simps [of w s] queue_loop.simps [of w' s])
    next
      case (Inr p)
      obtain stp s1 where p: "p = (stp, s1)" by (cases p)
      show ?thesis
      proof (cases stp)
        case Continue
        from "1.IH" [OF Cons Inr p [symmetric] Continue "1.prems"] Cons st Inr p Continue
        show ?thesis by (simp add: queue_loop.simps [of w s] queue_loop.simps [of w' s])
      next
        case Break
        with Cons st Inr p show ?thesis
          by (simp add: queue_loop.simps [of w s] queue_loop.simps [of w' s])
      next
        case (Yield c)
        with Cons st Inr p show ?thesis
          by (simp add: queue_loop.simps [of w s] queue_loop.simps [of w' s])
      qed
    qed
  qed
qed

lemma queue_next_core: "same_core w w' \<Longrightarrow> queue_next w' s = queue_next w s"
  by (simp add: queue_next_def queue_loop_core)

lemma change_matches_core:
  assumes "same_core w w'"
  shows "change_matches w' s ch = change_matches w s ch"
proof -
  have f: "follow w' = follow w" using assms by (simp add: same_core_def)
  show ?thesis unfolding change_matches_def f by (rule refl)
qed

lemma any_change_matches_core:
  "same_core w w' \<Longrightarrow> any_change_matches w' s cs = any_change_matches w s cs"
  by (induction cs arbitrary: s) (simp_all add: change_matches_core split: sum.splits bool.splits)

lemma any_path_changes_match_core:
  "same_core w w' \<Longrightarrow> any_path_changes_match w' s css = any_path_changes_match w s css"
  by (induction css arbitrary: s)
     (simp_all add: any_change_matches_core split: sum.splits bool.splits)

lemma entry_changes_core:
  assumes "same_core w w'"
  shows "entry_changes w' c = entry_changes w c"
proof -
  have e: "get_parents w' = get_parents w" "store w' = store w"
    "rename_detector w' = rename_detector w" "tree_changes w' = tree_changes w"
    "tree_changes_for_merge w' = tree_changes_for_merge w"
    using assms by (simp_all add: same_core_def)
  show ?thesis unfolding entry_changes_def e by (rule refl)
qed

lemma should_return_core:
  assumes "same_core w w'"
  shows "should_return w' s c = should_return w s c"
proof -
  have e: "since w' = since w" "until w' = until w"
    using assms by (simp_all add: same_core_def)
  show ?thesis
    unfolding should_return_def e entry_changes_core [OF assms]
      any_change_matches_core [OF assms] any_path_changes_match_core [OF assms]
    by (rule refl)
qed

lemma may_continue_num_entries:
  "num_entries t = num_entries s \<Longrightarrow> may_continue w t = may_continue w s"
  by (simp add: may_continue_def)

lemma walker_next_agree:
  "same_core w w' \<Longrightarrow> may_continue w' s = may_continue w s \<Longrightarrow>
     walker_next w' s = walker_next w s"
proof (induction w s rule: walker_next.induct)
  case (1 w s)
  note core = "1.prems"(1) and mc' = "1.prems"(2)
  have agree: "may_continue w' t = may_continue w t" if "num_entries t = num_entries s" for t
    using mc' may_continue_num_entries [OF that, of w] may_continue_num_entries [OF that, of w']
    by simp
  note qn = queue_next_core [OF core]
  show ?case
  proof (cases "may_continue w s")
    case False
    then show ?thesis by (simp add: walker_next_capped mc')
  next
    case True
    then have mc: "max_entries w = None \<or> num_entries s < the (max_entries w)"
      by (simp add: may_continue_def)
    from True have True': "may_continue w' s" by (simp add: mc')
    show ?thesis
    proof (cases "queue_next w s")
      case (Inl e)
      then show ?thesis using True True' by (simp add: walker_next_error qn)
    next
      case (Inr p)
      obtain entry s1 where p: "p = (entry, s1)" by (cases p)
      note q = Inr [unfolded p]
      have q': "queue_next w' s = Inr (entry, s1)" using q by (simp add: qn)
      define s2 where "s2 = (case entry of None \<Rightarrow> s1 | Some e \<Rightarrow> s1\<lparr>out_queue := out_queue s1 @ [e]\<rparr>)"
      have n1: "num_entries s1 = num_entries s" using queue_next_measure [OF q] by simp
      then have n2: "num_entries s2 = num_entries s" by (simp add: s2_def split: option.splits)
      show ?thesis
      proof (cases "entry = None \<or> int (length (out_queue s2)) > MAX_EXTRA_COMMITS")
        case False
        then obtain e where e: "entry = Some e" by auto
        have s2e: "s2 = s1\<lparr>out_queue := out_queue s1 @ [e]\<rparr>" by (simp add: s2_def e)
        from False have nb: "\<not> int (length (out_queue s1 @ [e])) > MAX_EXTRA_COMMITS"
          by (simp add: s2e)
        from "1.IH"(2) [OF mc q refl s2_def False core agree [OF n2]]
        have "walker_next w' s2 = walker_next w s2" .
        with walker_next_buffer [OF True q [unfolded e] nb]
          walker_next_buffer [OF True' q' [unfolded e] nb]
        show ?thesis by (simp add: s2e)
      next
        case flush: True
        show ?thesis
        proof (cases "out_queue s2")
          case Nil
          then have en: "entry = None" by (auto simp: s2_def split: option.splits)
          then have s21: "s2 = s1" by (simp add: s2_def)
          from walker_next_exhausted [OF True q [unfolded en]]
            walker_next_exhausted [OF True' q' [unfolded en]] Nil s21
          show ?thesis by simp
        next
          case (Cons e rest)
          note eq = walker_next_flush [OF True q s2_def flush Cons]
          note eq' = walker_next_flush [OF True' q' s2_def flush Cons]
          note sr = should_return_core [OF core, of "s2\<lparr>out_queue := rest\<rparr>" e]
          show ?thesis
          proof (cases "should_return w (s2\<lparr>out_queue := rest\<rparr>) e")
            case (Inl err)
            with eq eq' sr show ?thesis by simp
          next
            case (Inr bs)
            obtain b s4 where bs: "bs = (b, s4)" by (cases bs)
            show ?thesis
            proof (cases b)
              case True
              with eq eq' sr Inr bs show ?thesis by simp
            next
              case False
              then have bF: "b = False" by simp
              from should_return_frame [OF Inr [unfolded bs]] n2
              have n4: "num_entries s4 = num_entries s" by auto
              from "1.IH"(1) [OF mc q refl s2_def flush Cons Inr [unfolded bs] refl bF core
                                 agree [OF n4]]
              have "walker_next w' s4 = walker_next w s4" .
              with eq eq' sr Inr bs bF show ?thesis by simp
            qed
          qed
        qed
      qed
    qed
  qed
qed

lemma walker_next_core:
  "same_core w w' \<Longrightarrow> max_entries w' = max_entries w \<Longrightarrow> walker_next w' s = walker_next w s"
  by (rule walker_next_agree) (simp_all add: may_continue_def)

lemma results_core:
  "same_core w w' \<Longrightarrow> max_entries w' = max_entries w \<Longrightarrow> results w' s = results w s"
proof (induction w s rule: results.induct)
  case (1 w s)
  note wn = walker_next_core [OF "1.prems", of s]
  show ?case
  proof (cases "walker_next w s")
    case (Inl e)
    with wn show ?thesis by (simp add: results.simps [of w s] results.simps [of w' s])
  next
    case (Inr p)
    obtain r s1 where p: "p = (r, s1)" by (cases p)
    show ?thesis
    proof (cases r)
      case None
      with wn Inr p show ?thesis by (simp add: results.simps [of w s] results.simps [of w' s])
    next
      case (Some e)
      from "1.IH" [OF Inr p [symmetric] Some "1.prems"]
      have "results w' s1 = results w s1" .
      with wn Inr p Some show ?thesis
        by (simp add: results.simps [of w s] results.simps [of w' s])
    qed
  qed
qed

subsection \<open>Reversal\<close>

text \<open>
  Claim C6, as stated: for every store and every option set, the sequence yielded with
  \<^verbatim>\<open>reverse = true\<close> is the reversal of the sequence yielded with \<^verbatim>\<open>reverse = false\<close>.
  It fails on a store that misses a commit: \<^verbatim>\<open>reversed(list(results))\<close> reads the whole
  walk before it yields. In the chain 7, 6, ..., 1 whose last commit names a missing
  parent, the walk with \<^verbatim>\<open>reverse = false\<close> yields commit 7 and then raises
  \<^verbatim>\<open>MissingCommitError\<close>; the walk with \<^verbatim>\<open>reverse = true\<close> raises without an entry
  yielded.
\<close>

theorem reverse_counterexample:
  "walk (chain7_walker\<lparr>reverse := False\<rparr>) chain7_state0
     = ([mk_commit 7 70 [6]], Some (MissingCommitError 0))
   \<and> walk (chain7_walker\<lparr>reverse := True\<rparr>) chain7_state0 = ([], Some (MissingCommitError 0))"
  by code_simp

text \<open>
  Claim C6, amended: for every store and every option set on which the walk with
  \<^verbatim>\<open>reverse = false\<close> ends without an error, the sequence yielded with
  \<^verbatim>\<open>reverse = true\<close> (all other options identical) is the reversal of the sequence
  yielded with \<^verbatim>\<open>reverse = false\<close>; when that walk raises, the walk with
  \<^verbatim>\<open>reverse = true\<close> raises the same error and yields no entry before.
\<close>

theorem reverse_walk:
  "(snd (walk (w\<lparr>reverse := False\<rparr>) s) = None \<longrightarrow>
      walk (w\<lparr>reverse := True\<rparr>) s = (rev (fst (walk (w\<lparr>reverse := False\<rparr>) s)), None))
   \<and> (snd (walk (w\<lparr>reverse := False\<rparr>) s) \<noteq> None \<longrightarrow>
        walk (w\<lparr>reverse := True\<rparr>) s = ([], snd (walk (w\<lparr>reverse := False\<rparr>) s)))"
proof -
  have c: "same_core w (w\<lparr>reverse := b\<rparr>)" "max_entries (w\<lparr>reverse := b\<rparr>) = max_entries w" for b
    by (simp_all add: same_core_def)
  have r: "results (w\<lparr>reverse := b\<rparr>) s = results w s" for b
    by (rule results_core [OF c])
  have "walk (w\<lparr>reverse := True\<rparr>) s = reversed_stream (walk (w\<lparr>reverse := False\<rparr>) s)"
    by (simp add: walk_def reorder_def r)
  then show ?thesis
    by (auto simp: reversed_stream_def split: option.splits)
qed

theorem reverse_walk_witness:
  "snd (walk (chain2_walker\<lparr>reverse := False\<rparr>) chain2_state0) = None
   \<and> fst (walk (chain2_walker\<lparr>reverse := False\<rparr>) chain2_state0)
       = [mk_commit 2 20 [1], mk_commit 1 10 []]
   \<and> walk (chain2_walker\<lparr>reverse := True\<rparr>) chain2_state0
       = ([mk_commit 1 10 [], mk_commit 2 20 [1]], None)
   \<and> snd (walk (chain7_walker\<lparr>reverse := False\<rparr>) chain7_state0) \<noteq> None
   \<and> walk (chain7_walker\<lparr>reverse := True\<rparr>) chain7_state0 = ([], Some (MissingCommitError 0))"
proof -
  have f2: "walk (chain2_walker\<lparr>reverse := False\<rparr>) chain2_state0
              = ([mk_commit 2 20 [1], mk_commit 1 10 []], None)"
    by code_simp
  have f7: "walk (chain7_walker\<lparr>reverse := False\<rparr>) chain7_state0
              = ([mk_commit 7 70 [6]], Some (MissingCommitError 0))"
    by code_simp
  from reverse_walk [of chain2_walker chain2_state0] reverse_walk [of chain7_walker chain7_state0]
    f2 f7
  show ?thesis by simp
qed

text \<open>The states used in the examples are the ones that the constructor builds.\<close>

lemma chain2_constructed:
  "walker_init (chain2_walker\<lparr>reverse := b, max_entries := m\<rparr>) None None
     = Inr (chain2_walker\<lparr>reverse := b, max_entries := m\<rparr>, chain2_state0)"
  by (simp add: walker_init_def chain2_walker_def chain2_state0_def mk_walker_def mk_state_def
        ALL_ORDERS_def ORDER_DATE_def push_def new_queue_def Let_def mk_commit_def)

lemma chain7_constructed:
  "walker_init (chain7_walker\<lparr>reverse := b\<rparr>) None None
     = Inr (chain7_walker\<lparr>reverse := b\<rparr>, chain7_state0)"
  by (simp add: walker_init_def chain7_walker_def chain7_state0_def mk_walker_def mk_state_def
        ALL_ORDERS_def ORDER_DATE_def push_def new_queue_def Let_def mk_commit_def)

subsection \<open>The cap on the number of entries\<close>

lemma walker_next_num_entries:
  "walker_next w s = Inr (r, s') \<Longrightarrow>
     num_entries s' = num_entries s + (if r = None then 0 else 1)"
proof (induction w s arbitrary: r s' rule: walker_next.induct)
  case (1 w s)
  show ?case
  proof (cases "may_continue w s")
    case False
    with "1.prems" show ?thesis by (simp add: walker_next_capped)
  next
    case True
    then have mc: "max_entries w = None \<or> num_entries s < the (max_entries w)"
      by (simp add: may_continue_def)
    from "1.prems" True obtain entry s1 where q: "queue_next w s = Inr (entry, s1)"
      by (cases "queue_next w s") (auto simp: walker_next_error)
    define s2 where "s2 = (case entry of None \<Rightarrow> s1 | Some e \<Rightarrow> s1\<lparr>out_queue := out_queue s1 @ [e]\<rparr>)"
    have n1: "num_entries s1 = num_entries s" using queue_next_measure [OF q] by simp
    then have n2: "num_entries s2 = num_entries s" by (simp add: s2_def split: option.splits)
    show ?thesis
    proof (cases "entry = None \<or> int (length (out_queue s2)) > MAX_EXTRA_COMMITS")
      case False
      then obtain e where e: "entry = Some e" by auto
      have s2e: "s2 = s1\<lparr>out_queue := out_queue s1 @ [e]\<rparr>" by (simp add: s2_def e)
      from False have "\<not> int (length (out_queue s1 @ [e])) > MAX_EXTRA_COMMITS"
        by (simp add: s2e)
      from walker_next_buffer [OF True q [unfolded e] this] "1.prems"
      have rec: "walker_next w s2 = Inr (r, s')" by (simp add: s2e)
      from "1.IH"(2) [OF mc q refl s2_def False rec] n2 show ?thesis by simp
    next
      case flush: True
      show ?thesis
      proof (cases "out_queue s2")
        case Nil
        then have en: "entry = None" by (auto simp: s2_def split: option.splits)
        then have "s2 = s1" by (simp add: s2_def)
        with Nil en walker_next_exhausted [OF True q [unfolded en]] "1.prems"
        have "r = None" "s' = s1" by simp_all
        with n1 show ?thesis by simp
      next
        case (Cons e rest)
        note eq = walker_next_flush [OF True q s2_def flush Cons]
        from "1.prems" eq obtain b s4
          where sr: "should_return w (s2\<lparr>out_queue := rest\<rparr>) e = Inr (b, s4)"
          by (cases "should_return w (s2\<lparr>out_queue := rest\<rparr>) e") auto
        from should_return_frame [OF sr] n2 have n4: "num_entries s4 = num_entries s" by auto
        show ?thesis
        proof (cases b)
          case True
          then have "r = Some e" "s' = s4\<lparr>num_entries := num_entries s4 + 1\<rparr>"
            using "1.prems" eq sr by simp_all
          with n4 show ?thesis by simp
        next
          case False
          then have bF: "b = False" by simp
          have rec: "walker_next w s4 = Inr (r, s')" using "1.prems" eq sr bF by simp
          from "1.IH"(1) [OF mc q refl s2_def flush Cons sr refl bF rec] n4
          show ?thesis by simp
        qed
      qed
    qed
  qed
qed

lemma results_cap:
  "max_entries wn = None \<Longrightarrow> same_core wn wk \<Longrightarrow> max_entries wk = Some k \<Longrightarrow>
     fst (results wk s) = take (nat (k - num_entries s)) (fst (results wn s))
     \<and> snd (results wk s)
         = (if length (fst (results wn s)) < nat (k - num_entries s)
            then snd (results wn s) else None)"
proof (induction wn s rule: results.induct)
  case (1 wn s)
  note nocap = "1.prems"(1) and core = "1.prems"(2) and cap = "1.prems"(3)
  show ?case
  proof (cases "num_entries s < k")
    case False
    then have "\<not> may_continue wk s" by (simp add: may_continue_def cap)
    then have "results wk s = ([], None)"
      by (simp add: results.simps [of wk s] walker_next_capped)
    with False show ?thesis by simp
  next
    case True
    then have "may_continue wk s = may_continue wn s"
      by (simp add: may_continue_def cap nocap)
    note wn = walker_next_agree [OF core this]
    from True have pos: "nat (k - num_entries s) = Suc (nat (k - num_entries s - 1))"
      by simp
    show ?thesis
    proof (cases "walker_next wn s")
      case (Inl e)
      with wn True show ?thesis
        by (simp add: results.simps [of wn s] results.simps [of wk s])
    next
      case (Inr p)
      obtain r s1 where p: "p = (r, s1)" by (cases p)
      show ?thesis
      proof (cases r)
        case None
        with wn Inr p show ?thesis
          by (simp add: results.simps [of wn s] results.simps [of wk s])
      next
        case (Some e)
        from walker_next_num_entries [OF Inr [unfolded p]] Some
        have n1: "num_entries s1 = num_entries s + 1" by simp
        from "1.IH" [OF Inr p [symmetric] Some nocap core cap] n1
        have ih: "fst (results wk s1) = take (nat (k - num_entries s - 1)) (fst (results wn s1))"
          "snd (results wk s1)
             = (if length (fst (results wn s1)) < nat (k - num_entries s - 1)
                then snd (results wn s1) else None)"
          by (simp_all add: algebra_simps)
        have un: "results wn s = (e # fst (results wn s1), snd (results wn s1))"
          using Inr p Some by (simp add: results.simps [of wn s] split: prod.splits)
        have ca: "results wk s = (e # fst (results wk s1), snd (results wk s1))"
          using wn Inr p Some by (simp add: results.simps [of wk s] split: prod.splits)
        show ?thesis
          unfolding un ca fst_conv snd_conv ih
          by (subst (1 2) pos) simp
      qed
    qed
  qed
qed

lemma length_topo_emit:
  "length (topo_emit gp todo pending nc) \<le> length todo + length pending"
proof (induction gp todo pending nc rule: topo_emit.induct)
  case (1 gp pending nc)
  show ?case by (simp add: topo_emit.simps)
next
  case (2 gp entry todo pending nc)
  show ?case
  proof (cases "nc (cid entry) \<noteq> 0")
    case True
    from "2.IH"(1) [OF True] length_pending_set [of pending "cid entry" entry] True
    show ?thesis by (simp add: topo_emit.simps)
  next
    case False
    obtain todo' pending' nc' where rp: "release_parents (gp entry) todo pending nc = (todo', pending', nc')"
      by (cases "release_parents (gp entry) todo pending nc") auto
    from "2.IH"(2) [OF False rp [symmetric] refl]
    have "length (topo_emit gp todo' pending' nc') \<le> length todo' + length pending'" .
    with release_parents_length [OF rp] False rp show ?thesis by (simp add: topo_emit.simps)
  qed
qed

lemma length_reorder: "length (fst (reorder w r)) \<le> length (fst r)"
proof -
  have t: "length (fst (topo_stream gp r)) \<le> length (fst r)" for gp r
    using length_topo_emit [of gp "fst r" "[]"]
    by (simp add: topo_stream_def topo_reorder_def split: option.splits)
  have v: "length (fst (reversed_stream r)) \<le> length (fst r)" for r
    by (simp add: reversed_stream_def split: option.splits)
  show ?thesis
    using t [of "get_parents w" r] v [of r] v [of "topo_stream (get_parents w) r"]
    by (auto simp: reorder_def Let_def)
qed

lemma walk_date:
  assumes "order w \<noteq> ORDER_TOPO" and "\<not> reverse w \<or> snd r = None"
  shows "length (fst (reorder w r)) = length (fst r)"
  using assms by (auto simp: reorder_def reversed_stream_def Let_def)

text \<open>
  Claim C7. A walker constructed with \<^verbatim>\<open>max_entries = k\<close>, \<open>k\<close> not negative, yields
  exactly \<open>min k n\<close> entries, where \<open>n\<close> is the number of entries that the same walker
  yields with no cap: the entries that \<^verbatim>\<open>_next\<close> returns are the first \<open>k\<close> entries that
  it returns with no cap. It never yields more than \<open>k\<close> entries, and when it yields
  fewer than \<open>k\<close> the capped traversal is the traversal with no cap, run to its end. In the
  order by date the iteration \<^verbatim>\<open>__iter__\<close> yields the entries of \<^verbatim>\<open>_next\<close> (reversed
  under \<^verbatim>\<open>reverse\<close>), hence as many; in every order it yields at most \<open>k\<close>.
\<close>

theorem max_entries_count:
  assumes "0 \<le> k" and "num_entries s = 0"
  shows "int (length (fst (results (w\<lparr>max_entries := Some k\<rparr>) s)))
           = min k (int (length (fst (results (w\<lparr>max_entries := None\<rparr>) s))))
     \<and> int (length (fst (results (w\<lparr>max_entries := Some k\<rparr>) s))) \<le> k
     \<and> (int (length (fst (results (w\<lparr>max_entries := Some k\<rparr>) s))) < k \<longrightarrow>
           results (w\<lparr>max_entries := Some k\<rparr>) s = results (w\<lparr>max_entries := None\<rparr>) s)
     \<and> fst (results (w\<lparr>max_entries := Some k\<rparr>) s)
           = take (nat k) (fst (results (w\<lparr>max_entries := None\<rparr>) s))
     \<and> (order w \<noteq> ORDER_TOPO
          \<and> (\<not> reverse w \<or> snd (results (w\<lparr>max_entries := None\<rparr>) s) = None) \<longrightarrow>
           int (length (fst (walk (w\<lparr>max_entries := Some k\<rparr>) s)))
             = min k (int (length (fst (walk (w\<lparr>max_entries := None\<rparr>) s)))))
     \<and> int (length (fst (walk (w\<lparr>max_entries := Some k\<rparr>) s))) \<le> k"
proof -
  let ?wk = "w\<lparr>max_entries := Some k\<rparr>" and ?wn = "w\<lparr>max_entries := None\<rparr>"
  have "max_entries ?wn = None" "same_core ?wn ?wk" "max_entries ?wk = Some k"
    by (simp_all add: same_core_def)
  from results_cap [OF this, of s] assms(2)
  have f: "fst (results ?wk s) = take (nat k) (fst (results ?wn s))"
    and e: "snd (results ?wk s)
              = (if length (fst (results ?wn s)) < nat k then snd (results ?wn s) else None)"
    by simp_all
  from f have "length (fst (results ?wk s)) = min (nat k) (length (fst (results ?wn s)))"
    by (simp add: min.commute)
  with assms(1)
  have l: "int (length (fst (results ?wk s))) = min k (int (length (fst (results ?wn s))))"
    by linarith
  then have le: "int (length (fst (results ?wk s))) \<le> k" by simp
  have same: "results ?wk s = results ?wn s" if "int (length (fst (results ?wk s))) < k"
  proof -
    from that l have lt: "length (fst (results ?wn s)) < nat k" by linarith
    with f have "fst (results ?wk s) = fst (results ?wn s)" by simp
    moreover from e lt have "snd (results ?wk s) = snd (results ?wn s)" by simp
    ultimately show ?thesis by (simp add: prod_eq_iff)
  qed
  have date: "int (length (fst (walk ?wk s))) = min k (int (length (fst (walk ?wn s))))"
    if o: "order w \<noteq> ORDER_TOPO" and r: "\<not> reverse w \<or> snd (results ?wn s) = None"
  proof -
    from r e have rk: "\<not> reverse ?wk \<or> snd (results ?wk s) = None" by auto
    from r have rn: "\<not> reverse ?wn \<or> snd (results ?wn s) = None" by simp
    from o have "order ?wk \<noteq> ORDER_TOPO" "order ?wn \<noteq> ORDER_TOPO" by simp_all
    from walk_date [OF this(1) rk] walk_date [OF this(2) rn] l
    show ?thesis by (simp add: walk_def)
  qed
  have "length (fst (walk ?wk s)) \<le> length (fst (results ?wk s))"
    unfolding walk_def by (rule length_reorder)
  with le have "int (length (fst (walk ?wk s))) \<le> k" by simp
  with f l le same date show ?thesis by blast
qed

theorem max_entries_count_witness:
  "(0::int) \<le> 1 \<and> num_entries chain2_state0 = 0
   \<and> results (chain2_walker\<lparr>max_entries := None\<rparr>) chain2_state0
       = ([mk_commit 2 20 [1], mk_commit 1 10 []], None)
   \<and> fst (results (chain2_walker\<lparr>max_entries := Some 1\<rparr>) chain2_state0) = [mk_commit 2 20 [1]]
   \<and> int (length (fst (results (chain2_walker\<lparr>max_entries := Some 1\<rparr>) chain2_state0))) = 1
   \<and> int (length (fst (results (chain2_walker\<lparr>max_entries := Some 5\<rparr>) chain2_state0))) = 2
   \<and> results (chain2_walker\<lparr>max_entries := Some 5\<rparr>) chain2_state0
       = results (chain2_walker\<lparr>max_entries := None\<rparr>) chain2_state0"
proof -
  have z: "num_entries chain2_state0 = 0"
    by (simp add: chain2_state0_def mk_state_def)
  have u: "results (chain2_walker\<lparr>max_entries := None\<rparr>) chain2_state0
             = ([mk_commit 2 20 [1], mk_commit 1 10 []], None)"
    by code_simp
  have k1: "(0::int) \<le> 1" and k5: "(0::int) \<le> 5" by simp_all
  from max_entries_count [OF k1 z, where w = chain2_walker]
    max_entries_count [OF k5 z, where w = chain2_walker] z u
  show ?thesis by simp
qed

subsection \<open>Topological order\<close>

lemma children_count_append:
  "children_count gp (xs @ ys) p = children_count gp xs p + children_count gp ys p"
  by (simp add: children_count_def)

lemma children_count_Cons:
  "children_count gp (e # es) p = count_list (gp e) p + children_count gp es p"
  by (simp add: children_count_def)

lemma children_count_zero:
  "children_count gp es p = 0 \<Longrightarrow> x \<in> set es \<Longrightarrow> p \<notin> set (gp x)"
proof (induction es)
  case Nil
  then show ?case by simp
next
  case (Cons e es)
  from Cons.prems(1) have c: "count_list (gp e) p = 0" and r: "children_count gp es p = 0"
    by (simp_all add: children_count_Cons)
  show ?case
  proof (cases "x = e")
    case True
    with c show ?thesis by (simp add: count_list_0_iff)
  next
    case False
    with Cons.prems(2) have "x \<in> set es" by simp
    from Cons.IH [OF r this] show ?thesis .
  qed
qed

lemma children_count_pending_filter:
  "children_count gp (map snd (filter P pending)) p \<le> children_count gp (map snd pending) p"
  by (induction pending) (simp_all add: children_count_Cons)

lemma children_count_pending_del:
  "(k, pe) \<in> set pending \<Longrightarrow>
     count_list (gp pe) p + children_count gp (map snd (pending_del pending k)) p
       \<le> children_count gp (map snd pending) p"
proof (induction pending)
  case Nil
  then show ?case by simp
next
  case (Cons kv pending)
  obtain k' v' where kv: "kv = (k', v')" by (cases kv)
  show ?case
  proof (cases "kv = (k, pe)")
    case True
    have "children_count gp (map snd (pending_del pending k)) p
            \<le> children_count gp (map snd pending) p"
      unfolding pending_del_def by (rule children_count_pending_filter)
    with True show ?thesis by (simp add: pending_del_def children_count_Cons)
  next
    case False
    with Cons.prems have "(k, pe) \<in> set pending" by simp
    from Cons.IH [OF this] kv show ?thesis
      by (simp add: pending_del_def children_count_Cons)
  qed
qed

lemma count_parents_apply:
  "count_parents nc ps p = nc p + int (count_list ps p)"
  unfolding count_parents_def
  by (induction ps arbitrary: nc) simp_all

lemma ingest_apply:
  "ingest gp es nc p = nc p + int (children_count gp es p)"
  by (induction es arbitrary: nc) (simp_all add: count_parents_apply children_count_def)

text \<open>What the loop over the parents of a yielded entry does to the three variables.\<close>

lemma release_parents_effect:
  "release_parents ps todo pending nc = (todo', pending', nc') \<Longrightarrow>
     (\<forall>p. nc' p = nc p - int (count_list ps p))
     \<and> (\<forall>p. children_count gp (todo' @ map snd pending') p
            \<le> children_count gp (todo @ map snd pending) p)
     \<and> set todo' \<union> snd ` set pending' \<subseteq> set todo \<union> snd ` set pending"
proof (induction ps arbitrary: todo pending nc)
  case Nil
  then show ?case by simp
next
  case (Cons q ps)
  let ?nc = "nc(q := nc q - 1)"
  have cnt: "?nc p - int (count_list ps p) = nc p - int (count_list (q # ps) p)" for p
    by simp
  show ?case
  proof (cases "nc q - 1 \<noteq> 0 \<or> map_of pending q = None")
    case True
    from Cons.prems have "release_parents ps todo pending ?nc = (todo', pending', nc')"
      unfolding release_parents_skip [of nc q pending, OF True] .
    from Cons.IH [OF this] cnt show ?thesis by simp
  next
    case False
    then obtain pe where z: "nc q - 1 = 0" and pe: "map_of pending q = Some pe" by auto
    from Cons.prems
    have "release_parents ps (pe # todo) (pending_del pending q) ?nc = (todo', pending', nc')"
      unfolding release_parents_move [of nc q pending pe, OF z pe] .
    note ih = Cons.IH [OF this]
    have mem: "(q, pe) \<in> set pending" using pe by (rule map_of_SomeD)
    have cc: "children_count gp ((pe # todo) @ map snd (pending_del pending q)) p
                \<le> children_count gp (todo @ map snd pending) p" for p
      using children_count_pending_del [OF mem, of gp p]
      by (simp add: children_count_append children_count_Cons)
    have st: "set (pe # todo) \<union> snd ` set (pending_del pending q) \<subseteq> set todo \<union> snd ` set pending"
      using mem by (force simp: pending_del_def)
    from ih have 1: "\<forall>p. nc' p = nc p - int (count_list (q # ps) p)"
      using cnt by simp
    from ih cc have 2: "\<forall>p. children_count gp (todo' @ map snd pending') p
            \<le> children_count gp (todo @ map snd pending) p"
      by (meson order_trans)
    from ih st have 3: "set todo' \<union> snd ` set pending' \<subseteq> set todo \<union> snd ` set pending"
      by blast
    from 1 2 3 show ?thesis by blast
  qed
qed

lemma set_topo_emit:
  "set (topo_emit gp todo pending nc) \<subseteq> set todo \<union> snd ` set pending"
proof (induction gp todo pending nc rule: topo_emit.induct)
  case (1 gp pending nc)
  show ?case by (simp add: topo_emit.simps)
next
  case (2 gp entry todo pending nc)
  show ?case
  proof (cases "nc (cid entry) \<noteq> 0")
    case True
    have "snd ` set (pending_set pending (cid entry) entry) \<subseteq> insert entry (snd ` set pending)"
      by (auto simp: pending_set_def)
    with "2.IH"(1) [OF True] True show ?thesis
      by (auto simp: topo_emit.simps)
  next
    case False
    obtain todo' pending' nc'
      where rp: "release_parents (gp entry) todo pending nc = (todo', pending', nc')"
      by (cases "release_parents (gp entry) todo pending nc") auto
    from "2.IH"(2) [OF False rp [symmetric] refl]
    have "set (topo_emit gp todo' pending' nc') \<subseteq> set todo' \<union> snd ` set pending'" .
    moreover from release_parents_effect [OF rp, of gp]
    have "set todo' \<union> snd ` set pending' \<subseteq> set todo \<union> snd ` set pending" by simp
    ultimately have "set (topo_emit gp todo' pending' nc') \<subseteq> set todo \<union> snd ` set pending"
      by (rule order_trans)
    moreover have "topo_emit gp (entry # todo) pending nc = entry # topo_emit gp todo' pending' nc'"
      using False rp by (simp add: topo_emit.simps)
    ultimately show ?thesis by auto
  qed
qed

text \<open>The invariant of the second phase: \<^verbatim>\<open>num_children[p]\<close> is at least the number of
  times that \<open>p\<close> is named as a parent by the entries still in \<^verbatim>\<open>todo\<close> or in
  \<^verbatim>\<open>pending\<close>.\<close>

lemma topo_emit_children_first:
  "(\<forall>p. int (children_count gp (todo @ map snd pending) p) \<le> nc p) \<Longrightarrow>
     children_first gp (topo_emit gp todo pending nc)"
proof (induction gp todo pending nc rule: topo_emit.induct)
  case (1 gp pending nc)
  show ?case by (simp add: topo_emit.simps)
next
  case (2 gp entry todo pending nc)
  note inv = "2.prems"
  show ?case
  proof (cases "nc (cid entry) \<noteq> 0")
    case True
    have "children_count gp (todo @ map snd (pending_set pending (cid entry) entry)) p
            \<le> children_count gp ((entry # todo) @ map snd pending) p" for p
      using children_count_pending_filter [of gp "\<lambda>kv. fst kv \<noteq> cid entry" pending p]
      by (simp add: pending_set_def children_count_append children_count_Cons)
    with inv have "\<forall>p. int (children_count gp
                      (todo @ map snd (pending_set pending (cid entry) entry)) p) \<le> nc p"
      by (meson order_trans of_nat_mono)
    from "2.IH"(1) [OF True this] True show ?thesis by (simp add: topo_emit.simps)
  next
    case False
    obtain todo' pending' nc'
      where rp: "release_parents (gp entry) todo pending nc = (todo', pending', nc')"
      by (cases "release_parents (gp entry) todo pending nc") auto
    note eff = release_parents_effect [OF rp, of gp]
    have inv': "int (children_count gp (todo' @ map snd pending') p) \<le> nc' p" for p
    proof -
      from eff have "children_count gp (todo' @ map snd pending') p
                       \<le> children_count gp (todo @ map snd pending) p"
        and "nc' p = nc p - int (count_list (gp entry) p)" by simp_all
      moreover from inv have "int (count_list (gp entry) p)
           + int (children_count gp (todo @ map snd pending) p) \<le> nc p"
        by (simp add: children_count_append children_count_Cons)
      ultimately show ?thesis by linarith
    qed
    from "2.IH"(2) [OF False rp [symmetric] refl] inv'
    have rest: "children_first gp (topo_emit gp todo' pending' nc')" by simp
    from inv False have "int (children_count gp ((entry # todo) @ map snd pending) (cid entry)) \<le> 0"
      by (metis (no_types, lifting))
    then have zero: "children_count gp ((entry # todo) @ map snd pending) (cid entry) = 0"
      by simp
    have "cid entry \<notin> set (gp x)"
      if "x \<in> set (entry # topo_emit gp todo' pending' nc')" for x
    proof -
      from eff have "set todo' \<union> snd ` set pending' \<subseteq> set todo \<union> snd ` set pending"
        by simp
      with set_topo_emit [of gp todo' pending' nc']
      have "set (topo_emit gp todo' pending' nc') \<subseteq> set todo \<union> snd ` set pending"
        by (rule order_trans)
      with that have "x \<in> set ((entry # todo) @ map snd pending)" by auto
      from children_count_zero [OF zero this] show ?thesis .
    qed
    then have "list_all (\<lambda>x. cid entry \<notin> set (gp x)) (entry # topo_emit gp todo' pending' nc')"
      unfolding list_all_iff by blast
    with rest False rp show ?thesis by (simp add: topo_emit.simps)
  qed
qed

lemma topo_reorder_children_first: "children_first gp (topo_reorder gp entries)"
  unfolding topo_reorder_def
  by (rule topo_emit_children_first) (simp add: ingest_apply)

lemma children_first_nth:
  "children_first gp out \<Longrightarrow> i \<le> j \<Longrightarrow> j < length out \<Longrightarrow>
     cid (out ! i) \<notin> set (gp (out ! j))"
proof (induction out arbitrary: i j)
  case Nil
  then show ?case by simp
next
  case (Cons e out)
  show ?case
  proof (cases i)
    case 0
    from Cons.prems(1) have "\<forall>x\<in>set (e # out). cid e \<notin> set (gp x)"
      by (simp add: list_all_iff)
    moreover from Cons.prems(3) have "(e # out) ! j \<in> set (e # out)" by (rule nth_mem)
    ultimately have "cid e \<notin> set (gp ((e # out) ! j))" by blast
    then show ?thesis using 0 by simp
  next
    case (Suc i')
    with Cons.prems obtain j' where j: "j = Suc j'" "i' \<le> j'" "j' < length out"
      by (cases j) auto
    from Cons.prems(1) have "children_first gp out" by simp
    from Cons.IH [OF this j(2,3)] Suc j show ?thesis by simp
  qed
qed

lemma children_first_edges:
  assumes "children_first gp out" and "(j, i) \<in> (child_edges gp out)\<^sup>+"
  shows "j < i"
  using assms(2)
proof (induction rule: trancl_induct)
  case (base i)
  then have "j < length out" "cid (out ! i) \<in> set (gp (out ! j))"
    by (simp_all add: child_edges_def)
  with children_first_nth [OF assms(1), of i j] show ?case by (cases "j < i") auto
next
  case (step i k)
  from step.hyps(2) have "i < length out" "cid (out ! k) \<in> set (gp (out ! i))"
    by (simp_all add: child_edges_def)
  with children_first_nth [OF assms(1), of k i] have "i < k" by (cases "i < k") auto
  with step.IH show ?case by simp
qed

lemma skew_constructed: "walker_init skew_walker None None = Inr (skew_walker, skew_state0)"
  by (simp add: walker_init_def skew_walker_def skew_state0_def mk_walker_def mk_state_def
        ALL_ORDERS_def ORDER_DATE_def ORDER_TOPO_def push_def new_queue_def Let_def
        mk_commit_def heap_le_def)

lemma pruned_constructed:
  "walker_init pruned_walker None None = Inr (pruned_walker, pruned_state0)"
  by (simp add: walker_init_def pruned_walker_def pruned_state0_def mk_walker_def mk_state_def
        ALL_ORDERS_def ORDER_DATE_def ORDER_TOPO_def push_def new_queue_def Let_def
        mk_commit_def heap_le_def)

lemmas topo_eval =
  topo_reorder_def topo_emit.simps count_parents_def pending_set_def pending_del_def
  release_parents_move release_parents_skip topo_stream_def reversed_stream_def

text \<open>
  Claim C5, as stated: in every walk with \<^verbatim>\<open>order = TOPO\<close> no commit is yielded before
  any of its descendants that are yielded in the same walk. It fails in two ways. With
  \<^verbatim>\<open>reverse = true\<close> the reordered sequence is reversed: the walk of the chain 2, 1
  yields the parent 1 before its child 2. With \<^verbatim>\<open>reverse = false\<close>, the reordering
  counts the parents named by the entries it is given: in the second walk commit 2 (the
  parent of 1, a child of 3) is older than \<^verbatim>\<open>since\<close> and is not an entry, and commit 3
  is yielded before its descendant 1.
\<close>

theorem topo_order_counterexample:
  "walk (chain2_walker\<lparr>order := ORDER_TOPO, reverse := True\<rparr>) chain2_state0
     = ([mk_commit 1 10 [], mk_commit 2 20 [1]], None)
   \<and> walk pruned_walker pruned_state0 = ([mk_commit 3 100 [], mk_commit 1 50 [2]], None)"
proof
  have r: "results (chain2_walker\<lparr>order := ORDER_TOPO, reverse := True\<rparr>) chain2_state0
             = ([mk_commit 2 20 [1], mk_commit 1 10 []], None)"
    by code_simp
  show "walk (chain2_walker\<lparr>order := ORDER_TOPO, reverse := True\<rparr>) chain2_state0
     = ([mk_commit 1 10 [], mk_commit 2 20 [1]], None)"
    unfolding walk_def r
    by (simp add: reorder_def chain2_walker_def mk_walker_def mk_commit_def topo_eval)
next
  have r: "results pruned_walker pruned_state0
             = ([mk_commit 3 100 [], mk_commit 1 50 [2]], None)"
    by code_simp
  show "walk pruned_walker pruned_state0 = ([mk_commit 3 100 [], mk_commit 1 50 [2]], None)"
    unfolding walk_def r
    by (simp add: reorder_def pruned_walker_def mk_walker_def mk_commit_def topo_eval)
qed
text \<open>
  Claim C5, amended: the sequence that \<^verbatim>\<open>_topo_reorder\<close> yields, and so the output of
  every walk with \<^verbatim>\<open>order = TOPO\<close> and \<^verbatim>\<open>reverse = false\<close>, has every parent entry after
  all of its children that appear in the output, and hence after every descendant that
  is linked to it by a chain of entries of the output: along every chain of child-to-parent
  steps between positions of the output the position grows.
\<close>

theorem topo_children_first:
  "((j, i) \<in> (child_edges gp (topo_reorder gp entries))\<^sup>+ \<longrightarrow> j < i)
   \<and> (order w = ORDER_TOPO \<and> \<not> reverse w
        \<and> (j', i') \<in> (child_edges (get_parents w) (fst (walk w s)))\<^sup>+ \<longrightarrow> j' < i')"
proof (intro conjI impI)
  assume "(j, i) \<in> (child_edges gp (topo_reorder gp entries))\<^sup>+"
  with topo_reorder_children_first show "j < i" by (rule children_first_edges)
next
  assume a: "order w = ORDER_TOPO \<and> \<not> reverse w
        \<and> (j', i') \<in> (child_edges (get_parents w) (fst (walk w s)))\<^sup>+"
  then have "fst (walk w s) = fst (topo_stream (get_parents w) (results w s))"
    by (simp add: walk_def reorder_def)
  then have "fst (walk w s) = topo_reorder (get_parents w) (fst (results w s)) \<or> fst (walk w s) = []"
    by (auto simp: topo_stream_def split: option.splits)
  then have "children_first (get_parents w) (fst (walk w s))"
    using topo_reorder_children_first [of "get_parents w" "fst (results w s)"] by auto
  with a show "j' < i'" using children_first_edges by blast
qed

theorem topo_children_first_witness:
  "walk (skew_walker\<lparr>order := ORDER_DATE\<rparr>) skew_state0
     = ([mk_commit 2 200 [], mk_commit 1 100 [2]], None)
   \<and> walk skew_walker skew_state0 = ([mk_commit 1 100 [2], mk_commit 2 200 []], None)
   \<and> order skew_walker = ORDER_TOPO \<and> \<not> reverse skew_walker
   \<and> (0, 1) \<in> (child_edges (get_parents skew_walker) (fst (walk skew_walker skew_state0)))\<^sup>+
   \<and> (0 :: nat) < 1"
proof -
  have rd: "results (skew_walker\<lparr>order := ORDER_DATE\<rparr>) skew_state0
              = ([mk_commit 2 200 [], mk_commit 1 100 [2]], None)"
    by code_simp
  have rt: "results skew_walker skew_state0 = ([mk_commit 2 200 [], mk_commit 1 100 [2]], None)"
    by code_simp
  have d: "walk (skew_walker\<lparr>order := ORDER_DATE\<rparr>) skew_state0
             = ([mk_commit 2 200 [], mk_commit 1 100 [2]], None)"
    unfolding walk_def rd
    by (simp add: reorder_def skew_walker_def mk_walker_def ORDER_DATE_def ORDER_TOPO_def)
  have t: "walk skew_walker skew_state0 = ([mk_commit 1 100 [2], mk_commit 2 200 []], None)"
    unfolding walk_def rt
    by (simp add: reorder_def skew_walker_def mk_walker_def mk_commit_def topo_eval)
  have o: "order skew_walker = ORDER_TOPO \<and> \<not> reverse skew_walker"
    by (simp add: skew_walker_def mk_walker_def)
  have "(0, 1) \<in> child_edges (get_parents skew_walker) (fst (walk skew_walker skew_state0))"
    unfolding child_edges_def t
    by (simp add: skew_walker_def mk_walker_def mk_commit_def)
  then have e: "(0, 1) \<in> (child_edges (get_parents skew_walker)
                              (fst (walk skew_walker skew_state0)))\<^sup>+"
    by (rule r_into_trancl)
  from topo_children_first [of _ _ _ _ skew_walker 0 1 skew_state0] o e
  have "(0 :: nat) < 1" by blast
  with d t o e show ?thesis by blast
qed


end
